theory Spec2Isabelle
  imports Main "HOL-Library.AList"
begin

section \<open>JavaScript values\<close>

text \<open>
  The store of \<^verbatim>\<open>store.ts\<close> is modelled in the variant that keeps a set of dependent
  reactions per state property (\<^verbatim>\<open>deps\<close>, \<^verbatim>\<open>runningReaction\<close>, \<^verbatim>\<open>isDirty\<close>). The
  functions \<^verbatim>\<open>commit\<close>, \<^verbatim>\<open>dispatch\<close>, \<^verbatim>\<open>subscribe\<close>, \<^verbatim>\<open>_withCommit\<close>, \<^verbatim>\<open>registerAction\<close>,
  \<^verbatim>\<open>registerMutation\<close>, \<^verbatim>\<open>toObjectStyle\<close> and \<^verbatim>\<open>isPayload\<close> are the same text in the
  variant without dependency sets.

  What user code can do is limited to the steps of \<open>prog\<close> below: it writes plain
  values into the state (never a wrapper object of the state itself), it does not
  change an array or object held in the state in place, and what it does after an
  \<^verbatim>\<open>await\<close> is not followed.

  Values: numbers are the integers and NaN; an object, an array and a function carry
  the identity that \<^verbatim>\<open>===\<close> compares (a natural number) beside their contents.
  \<open>VPromise st\<close> is a promise object of the engine in the state it has when the
  program gets hold of it: fulfilled with a value, rejected with a reason, pending
  with nothing decided, or pending and bound to take the state of a thenable (an
  object with a function \<^verbatim>\<open>then\<close>) that it was resolved with. \<open>VBuiltin n\<close> is the
  built-in object of the engine with the name \<open>n\<close>: the members that every plain
  object inherits from \<^verbatim>\<open>Object.prototype\<close>, and \<^verbatim>\<open>then\<close>/\<^verbatim>\<open>catch\<close> of a promise.
\<close>

datatype jsval =
    VUndefined
  | VNull
  | VBool bool
  | VNum int
  | VNaN
  | VStr string
  | VObject nat "(string \<times> jsval) list"
  | VArray nat "jsval list"
  | VFunction nat
  | VPromise pstate
  | VBuiltin string
and pstate =
    Fulfilled jsval
  | Rejected jsval
  | Pending
  | Following jsval

datatype exn =
    Error string
  | TypeError string
  | UserThrow jsval

text \<open>
  The result of running a piece of the program: a value, a thrown exception, the end
  of the fuel (the evaluation nests deeper than the bound given), or a step of the
  engine that this model does not describe.
\<close>

datatype outcome = Val jsval | Exn exn | OutOfFuel | Unmodelled

fun typeof :: "jsval \<Rightarrow> string" where
  "typeof VUndefined = ''undefined''"
| "typeof VNull = ''object''"
| "typeof (VBool _) = ''boolean''"
| "typeof (VNum _) = ''number''"
| "typeof VNaN = ''number''"
| "typeof (VStr _) = ''string''"
| "typeof (VObject _ _) = ''object''"
| "typeof (VArray _ _) = ''object''"
| "typeof (VFunction _) = ''function''"
| "typeof (VPromise _) = ''object''"
| "typeof (VBuiltin n) = (if n = ''Object.prototype'' then ''object'' else ''function'')"

fun truthy :: "jsval \<Rightarrow> bool" where
  "truthy VUndefined = False"
| "truthy VNull = False"
| "truthy (VBool b) = b"
| "truthy (VNum n) = (n \<noteq> 0)"
| "truthy VNaN = False"
| "truthy (VStr s) = (s \<noteq> [])"
| "truthy _ = True"

text \<open>\<^verbatim>\<open>a !== b\<close>: primitives by value, NaN different from everything, objects by identity.\<close>

definition strict_neq :: "jsval \<Rightarrow> jsval \<Rightarrow> bool" where
  "strict_neq a b =
     (if a = VNaN \<or> b = VNaN then True
      else case a of
             VObject i _ \<Rightarrow> (case b of VObject j _ \<Rightarrow> i \<noteq> j | _ \<Rightarrow> True)
           | VArray i _ \<Rightarrow> (case b of VArray j _ \<Rightarrow> i \<noteq> j | _ \<Rightarrow> True)
           | _ \<Rightarrow> a \<noteq> b)"

text \<open>The own property names of \<^verbatim>\<open>Object.prototype\<close>, which every \<^verbatim>\<open>{}\<close> inherits.\<close>

definition Object_prototype_keys :: "string list" where
  "Object_prototype_keys =
     [''constructor'', ''__defineGetter__'', ''__defineSetter__'', ''hasOwnProperty'',
      ''__lookupGetter__'', ''__lookupSetter__'', ''isPrototypeOf'',
      ''propertyIsEnumerable'', ''toString'', ''valueOf'', ''__proto__'',
      ''toLocaleString'']"

text \<open>What \<^verbatim>\<open>o[k]\<close> gives on a plain object that has no own property \<open>k\<close>.\<close>

definition proto_get :: "string \<Rightarrow> jsval" where
  "proto_get k =
     (if k = ''__proto__'' then VBuiltin ''Object.prototype''
      else if k \<in> set Object_prototype_keys then VBuiltin (''Object.prototype.'' @ k)
      else VUndefined)"

text \<open>
  \<^verbatim>\<open>val[k]\<close> for a value that passed \<^verbatim>\<open>isObject\<close>. The source reads only the keys
  \<^verbatim>\<open>type\<close>, \<^verbatim>\<open>then\<close> and \<^verbatim>\<open>catch\<close> this way; an array has none of them unless it
  inherits it.
\<close>

fun get_prop :: "jsval \<Rightarrow> string \<Rightarrow> jsval" where
  "get_prop (VObject _ fs) k = (case map_of fs k of Some v \<Rightarrow> v | None \<Rightarrow> proto_get k)"
| "get_prop (VPromise _) k =
     (if k = ''then'' \<or> k = ''catch'' then VBuiltin (''Promise.prototype.'' @ k)
      else proto_get k)"
| "get_prop _ k = proto_get k"

subsection \<open>utils.ts\<close>

definition isObject :: "jsval \<Rightarrow> bool" where
  "isObject val = (typeof val = ''object'' \<and> val \<noteq> VNull)"

definition isFunction :: "jsval \<Rightarrow> bool" where
  "isFunction val = (typeof val = ''function'')"

fun isArray :: "jsval \<Rightarrow> bool" where
  "isArray (VArray _ _) = True"
| "isArray _ = False"

definition isPromise :: "jsval \<Rightarrow> bool" where
  "isPromise val =
     (isObject val \<and> isFunction (get_prop val ''then'') \<and> isFunction (get_prop val ''catch''))"

text \<open>
  \<^verbatim>\<open>Promise.resolve(x)\<close> of the engine (ECMAScript, PromiseResolve and the resolve
  function of a new promise): a promise of the engine is returned as it is; for any
  other \<open>x\<close> a new promise is made and resolved with \<open>x\<close>. When \<open>x\<close> is no object, or
  its \<^verbatim>\<open>then\<close> is no function, the new promise is fulfilled with \<open>x\<close> at once. When
  \<open>x\<close> is an object with a function \<^verbatim>\<open>then\<close>, the engine only queues a job that will
  call \<^verbatim>\<open>x.then\<close> with the new promise's resolving functions, and returns the new
  promise pending: it will take the state that \<open>x\<close> reports, and is not fulfilled with
  \<open>x\<close>. A function is an object too; those of this model have no \<^verbatim>\<open>then\<close>.
\<close>

definition Promise_resolve :: "jsval \<Rightarrow> jsval" where
  "Promise_resolve x =
     (case x of
        VPromise _ \<Rightarrow> x
      | _ \<Rightarrow>
          if (isObject x \<or> isFunction x) \<and> isFunction (get_prop x ''then'')
          then VPromise (Following x)
          else VPromise (Fulfilled x))"

text \<open>
  \<^verbatim>\<open>setFromForeachable\<close>: a new set that receives the elements of the old one in
  iteration order. A JavaScript set is a list without repetition, in insertion order.
\<close>

definition set_add :: "'a \<Rightarrow> 'a list \<Rightarrow> 'a list" where
  "set_add x xs = (if x \<in> set xs then xs else xs @ [x])"

definition set_delete :: "'a \<Rightarrow> 'a list \<Rightarrow> 'a list" where
  "set_delete x xs = filter (\<lambda>y. y \<noteq> x) xs"

definition setFromForeachable :: "'a list \<Rightarrow> 'a list" where
  "setFromForeachable val = foldl (\<lambda>s x. set_add x s) [] val"

subsection \<open>The environment flag\<close>

text \<open>
  \<^verbatim>\<open>NOT_PRODUCTION = NODE_ENV === "development" || NODE_ENV === "test"\<close>, as the
  variant without dependency sets defines it at its top (the other variant imports
  the constant from \<^verbatim>\<open>./env\<close>); the argument is the value of
  \<^verbatim>\<open>process.env.NODE_ENV\<close>, \<open>None\<close> when it is not set.
\<close>

definition NOT_PRODUCTION :: "string option \<Rightarrow> bool" where
  "NOT_PRODUCTION node_env = (node_env = Some ''development'' \<or> node_env = Some ''test'')"

subsection \<open>toObjectStyle\<close>

text \<open>\<^verbatim>\<open>isPayload(val) = isObject(val) && val.type\<close>, used for its truth value.\<close>

definition isPayload :: "jsval \<Rightarrow> bool" where
  "isPayload val = (isObject val \<and> truthy (get_prop val ''type''))"

text \<open>
  The first statement of \<^verbatim>\<open>toObjectStyle\<close>, which chooses type and payload, and the
  whole function with the check of the type under \<^verbatim>\<open>NOT_PRODUCTION\<close>.
\<close>

definition resolve :: "jsval \<Rightarrow> jsval \<Rightarrow> jsval \<times> jsval" where
  "resolve type0 payload0 =
     (if isPayload type0 then (get_prop type0 ''type'', type0) else (type0, payload0))"

definition toObjectStyle :: "string option \<Rightarrow> jsval \<Rightarrow> jsval \<Rightarrow> exn + jsval \<times> jsval" where
  "toObjectStyle node_env type0 payload0 =
     (let (type, payload) = resolve type0 payload0
      in if NOT_PRODUCTION node_env \<and> typeof type \<noteq> ''string''
         then Inl (TypeError (''expects string as the type, but found '' @ typeof type @ ''.''))
         else Inr (type, payload))"

section \<open>The state tree\<close>

text \<open>
  \<^verbatim>\<open>_initState\<close> turns every entry of the initial state into an accessor property with
  a closure of its own: \<^verbatim>\<open>currentValue\<close> (the wrapped copy of a nested plain object, or the
  value as it is) and \<^verbatim>\<open>deps\<close>, the set of reactions that read the property. A reaction
  is the closure \<^verbatim>\<open>() => (isDirty = true)\<close> of one registered getter and is named by that
  getter. The wrapper object is an ordinary extensible object, so a later assignment
  to a key it does not have makes a data property.
\<close>

datatype slot = Accessor cellval "string list" | Data jsval
and cellval = Plain jsval | Wrapped "(string \<times> slot) list"

type_synonym wrapper = "(string \<times> slot) list"

text \<open>\<^verbatim>\<open>Object.entries\<close> of a value that passed \<^verbatim>\<open>isObject\<close> and is no array.\<close>

fun entries :: "jsval \<Rightarrow> (string \<times> jsval) list" where
  "entries (VObject _ fs) = fs"
| "entries _ = []"

lemma entries_size: "size_list (\<lambda>p. size (snd p)) (entries v) \<le> size v"
proof (cases v)
  case (VObject i fs)
  have "size_list (\<lambda>p. size (snd p)) fs \<le> size_list (size_prod (\<lambda>_. 0) size) fs"
    by (induction fs) (auto simp: size_prod_simp)
  with VObject show ?thesis by simp
qed simp_all

function initState :: "(string \<times> jsval) list \<Rightarrow> wrapper" where
  "initState [] = []"
| "initState ((key, val) # rest) =
     (key, Accessor (if isObject val \<and> \<not> isArray val then Wrapped (initState (entries val))
                     else Plain val) [])
     # initState rest"
  by pat_completeness auto
termination
proof (relation "measure (size_list (\<lambda>p. size (snd p)))")
  show "wf (measure (size_list (\<lambda>p. size (snd p))))" by simp
next
  fix key :: string and val :: jsval and rest :: "(string \<times> jsval) list"
  show "(entries val, (key, val) # rest) \<in> measure (size_list (\<lambda>p. size (snd p)))"
    using entries_size [of val] by simp
next
  fix key :: string and val :: jsval and rest :: "(string \<times> jsval) list"
  show "(rest, (key, val) # rest) \<in> measure (size_list (\<lambda>p. size (snd p)))"
    by simp
qed

subsection \<open>Reading and writing through the wrapper\<close>

text \<open>\<^verbatim>\<open>if (store.runningReaction) deps.add(store.runningReaction)\<close>\<close>

definition track :: "string option \<Rightarrow> string list \<Rightarrow> string list" where
  "track rr deps = (case rr of None \<Rightarrow> deps | Some r \<Rightarrow> set_add r deps)"

text \<open>
  The rest of a property path below a plain value: a plain object gives its own or
  inherited property, \<^verbatim>\<open>undefined\<close> and \<^verbatim>\<open>null\<close> throw, and the properties of the other
  values (indices, lengths, methods) are not described.
\<close>

fun plain_get :: "jsval \<Rightarrow> string list \<Rightarrow> outcome" where
  "plain_get v [] = Val v"
| "plain_get v (k # ks) =
     (case v of
        VUndefined \<Rightarrow> Exn (TypeError (''Cannot read properties of undefined (reading '' @ k @ '')''))
      | VNull \<Rightarrow> Exn (TypeError (''Cannot read properties of null (reading '' @ k @ '')''))
      | VObject _ _ \<Rightarrow> plain_get (get_prop v k) ks
      | _ \<Rightarrow> Unmodelled)"

text \<open>
  \<^verbatim>\<open>state.k1.k2...kn\<close> read from the wrapper: every accessor on the way runs its
  \<^verbatim>\<open>get()\<close>, which adds the running reaction to its \<^verbatim>\<open>deps\<close>. A path that ends at a
  nested wrapper yields that wrapper object, which is no plain value: not described.
\<close>

fun state_get :: "string option \<Rightarrow> wrapper \<Rightarrow> string list \<Rightarrow> outcome \<times> wrapper" where
  "state_get rr w [] = (Unmodelled, w)"
| "state_get rr w (k # ks) =
     (case map_of w k of
        None \<Rightarrow> (plain_get (proto_get k) ks, w)
      | Some (Data v) \<Rightarrow> (plain_get v ks, w)
      | Some (Accessor (Plain v) deps) \<Rightarrow>
          (plain_get v ks, AList.update k (Accessor (Plain v) (track rr deps)) w)
      | Some (Accessor (Wrapped sub) deps) \<Rightarrow>
          (let (r, sub') = state_get rr sub ks
           in (r, AList.update k (Accessor (Wrapped sub') (track rr deps)) w)))"

text \<open>\<^verbatim>\<open>newVal !== currentValue\<close>; a value that a handler writes is never the wrapper.\<close>

fun changed :: "jsval \<Rightarrow> cellval \<Rightarrow> bool" where
  "changed newVal (Plain currentValue) = strict_neq newVal currentValue"
| "changed newVal (Wrapped _) = True"

text \<open>An assignment below a plain value held in the state: only its failure is described.\<close>

definition plain_set :: "jsval \<Rightarrow> string list \<Rightarrow> outcome" where
  "plain_set x ks =
     (case plain_get x (butlast ks) of
        Val VUndefined \<Rightarrow> Exn (TypeError (''Cannot set properties of undefined (setting '' @ last ks @ '')''))
      | Val VNull \<Rightarrow> Exn (TypeError (''Cannot set properties of null (setting '' @ last ks @ '')''))
      | Val _ \<Rightarrow> Unmodelled
      | r \<Rightarrow> r)"

text \<open>
  \<^verbatim>\<open>state.k1...kn = newVal\<close>. The prefix of the path is read as above. At an accessor
  the \<^verbatim>\<open>set(newVal)\<close> of \<^verbatim>\<open>_initState\<close> runs: \<open>blocked\<close> is the value of
  \<^verbatim>\<open>store.strict && !store.isCommitting && NOT_PRODUCTION\<close>; the third component of the
  result is the list of reactions that \<^verbatim>\<open>deps.forEach(fn => fn())\<close> calls. At a data
  property or an absent key the engine's ordinary assignment runs.
\<close>

fun state_set ::
  "bool \<Rightarrow> string option \<Rightarrow> wrapper \<Rightarrow> string list \<Rightarrow> jsval \<Rightarrow> outcome \<times> wrapper \<times> string list"
where
  "state_set blocked rr w [] newVal = (Unmodelled, w, [])"
| "state_set blocked rr w [k] newVal =
     (case map_of w k of
        None \<Rightarrow>
          if k = ''__proto__'' then (Unmodelled, w, [])
          else (Val newVal, w @ [(k, Data newVal)], [])
      | Some (Data _) \<Rightarrow> (Val newVal, AList.update k (Data newVal) w, [])
      | Some (Accessor currentValue deps) \<Rightarrow>
          if blocked
          then (Exn (Error ''do not mutate store state outside mutation handlers''), w, [])
          else (Val newVal, AList.update k (Accessor (Plain newVal) deps) w,
                if changed newVal currentValue then deps else []))"
| "state_set blocked rr w (k # k' # ks) newVal =
     (case map_of w k of
        None \<Rightarrow> (plain_set (proto_get k) (k' # ks), w, [])
      | Some (Data x) \<Rightarrow> (plain_set x (k' # ks), w, [])
      | Some (Accessor (Plain x) deps) \<Rightarrow>
          (plain_set x (k' # ks), AList.update k (Accessor (Plain x) (track rr deps)) w, [])
      | Some (Accessor (Wrapped sub) deps) \<Rightarrow>
          (let (r, sub', fired) = state_set blocked rr sub (k' # ks) newVal
           in (r, AList.update k (Accessor (Wrapped sub') (track rr deps)) w, fired)))"

section \<open>User code and the store\<close>

text \<open>
  The functions a user gives to the store (getters, mutation and action handlers,
  subscriber callbacks) are opaque to it. Each is modelled by what it does to the
  store, step by step, with the rest of the function depending on what a read
  returned: a read or a write of \<^verbatim>\<open>state\<close> along a property path, a read of
  \<^verbatim>\<open>getters[name]\<close>, a call of \<^verbatim>\<open>commit\<close>, \<^verbatim>\<open>dispatch\<close> (its promise is not
  inspected), \<^verbatim>\<open>subscribe(fn)\<close> or of the function \<^verbatim>\<open>subscribe(fn)\<close> returned, a read
  of \<^verbatim>\<open>store.isCommitting\<close>, a \<^verbatim>\<open>return\<close> and a \<^verbatim>\<open>throw\<close>. A function that a user
  subscribes is named by a number, its identity in the set of subscribers.
\<close>

datatype prog =
    Ret jsval
  | Raise jsval
  | GetState "string list" "jsval \<Rightarrow> prog"
  | SetState "string list" jsval prog
  | GetGetter string "jsval \<Rightarrow> prog"
  | Commit jsval jsval prog
  | Dispatch jsval jsval prog
  | Subscribe nat prog
  | Unsubscribe nat prog
  | GetGuard "bool \<Rightarrow> prog"

text \<open>
  The record of calls, kept beside the store for the statements about how often a
  function runs: one entry per call of a user function, of a reaction or per read of
  the guard, holding the calls made while it ran.
\<close>

datatype tag =
    GetterFn string
  | MutationFn string jsval
  | ActionFn string jsval
  | SubscriberFn nat jsval jsval
  | Reaction string
  | GuardRead bool

datatype event = Call tag "event list"

text \<open>
  The closure of \<^verbatim>\<open>registerGetter\<close>: the getter's function and the variables
  \<^verbatim>\<open>isDirty\<close> and \<^verbatim>\<open>value\<close>.
\<close>

record getter_entry =
  handler :: prog
  isDirty :: bool
  cached :: jsval

text \<open>
  The fields of \<^verbatim>\<open>class Store\<close>. \<open>pendingDirty\<close> is the variable \<^verbatim>\<open>isDirty\<close> of the
  getter whose registration is running, before its property is defined; \<open>calls\<close> is
  the record of calls.
\<close>

record store =
  state :: wrapper
  getters :: "(string \<times> getter_entry) list"
  actions :: "(string \<times> (jsval \<Rightarrow> prog)) list"
  mutations :: "(string \<times> (jsval \<Rightarrow> prog)) list"
  strict :: bool
  isCommitting :: bool
  runningReaction :: "string option"
  pendingDirty :: bool
  subscribers :: "nat list"
  calls :: "event list"

text \<open>\<^verbatim>\<open>registry[key]\<close> on one of the plain objects \<^verbatim>\<open>_getters\<close>, \<^verbatim>\<open>_actions\<close>, \<^verbatim>\<open>_mutations\<close>.\<close>

datatype 'a member = Own 'a | Inherited jsval

definition registry_get :: "(string \<times> 'a) list \<Rightarrow> string \<Rightarrow> 'a member" where
  "registry_get reg key =
     (case map_of reg key of Some h \<Rightarrow> Own h | None \<Rightarrow> Inherited (proto_get key))"

text \<open>
  Calling what such a lookup found when it is no function of the store, as
  \<^verbatim>\<open>mutation(payload)\<close> and \<^verbatim>\<open>action(payload)\<close> do, with no receiver: a value that is
  no function throws the engine's TypeError; \<^verbatim>\<open>Object.prototype.toString\<close> returns
  \<^verbatim>\<open>"[object Undefined]"\<close> for the receiver \<^verbatim>\<open>undefined\<close>; the other inherited built-in
  functions are not described.
\<close>

definition call_inherited :: "jsval \<Rightarrow> string \<Rightarrow> outcome" where
  "call_inherited v what =
     (if v = VBuiltin ''Object.prototype.toString'' then Val (VStr ''[object Undefined]'')
      else if typeof v = ''function'' then Unmodelled
      else Exn (TypeError (what @ '' is not a function'')))"

text \<open>
  The property key that \<^verbatim>\<open>registry[type]\<close> uses for a primitive \<open>type\<close>. A number
  below \<open>10 ^ 21\<close> in absolute value is written with its decimal digits; from there on
  the engine writes a mantissa and an exponent (\<^verbatim>\<open>1e+21\<close>), which are not described,
  and neither is the conversion of an object, which may run user code.
\<close>

fun digits :: "nat \<Rightarrow> string" where
  "digits n =
     (if n < 10 then [char_of (48 + n)] else digits (n div 10) @ [char_of (48 + n mod 10)])"

declare digits.simps [simp del]

fun to_property_key :: "jsval \<Rightarrow> string option" where
  "to_property_key (VStr s) = Some s"
| "to_property_key VUndefined = Some ''undefined''"
| "to_property_key VNull = Some ''null''"
| "to_property_key (VBool b) = Some (if b then ''true'' else ''false'')"
| "to_property_key VNaN = Some ''NaN''"
| "to_property_key (VNum n) =
     (if \<bar>n\<bar> < 10 ^ 21
      then Some (if n < 0 then ''-'' @ digits (nat (- n)) else digits (nat n))
      else None)"
| "to_property_key _ = None"

text \<open>Entering and leaving a call in the record of calls.\<close>

definition enter :: "store \<Rightarrow> store" where
  "enter s = s\<lparr>calls := []\<rparr>"

definition leave :: "tag \<Rightarrow> event list \<Rightarrow> outcome \<times> store \<Rightarrow> outcome \<times> store" where
  "leave t prior rs = (fst rs, (snd rs)\<lparr>calls := prior @ [Call t (calls (snd rs))]\<rparr>)"

text \<open>A reaction \<^verbatim>\<open>() => (isDirty = true)\<close> called by a setter.\<close>

definition fire :: "string \<Rightarrow> store \<Rightarrow> store" where
  "fire r s =
     (case map_of (getters s) r of
        Some _ \<Rightarrow> s\<lparr>getters := AList.map_entry r (\<lambda>g. g\<lparr>isDirty := True\<rparr>) (getters s),
                     calls := calls s @ [Call (Reaction r) []]\<rparr>
      | None \<Rightarrow> s\<lparr>pendingDirty := True, calls := calls s @ [Call (Reaction r) []]\<rparr>)"

definition fire_all :: "string list \<Rightarrow> store \<Rightarrow> store" where
  "fire_all rs s = foldl (\<lambda>s r. fire r s) s rs"

text \<open>The setter's test \<^verbatim>\<open>store.strict && !store.isCommitting && NOT_PRODUCTION\<close>.\<close>

definition blocked :: "string option \<Rightarrow> store \<Rightarrow> bool" where
  "blocked node_env s = (strict s \<and> \<not> isCommitting s \<and> NOT_PRODUCTION node_env)"

text \<open>
  One assignment \<^verbatim>\<open>state.k1...kn = newVal\<close> and one read \<^verbatim>\<open>state.k1...kn\<close> on the
  store, from a handler or from outside: the reactions that the setter calls run at
  once.
\<close>

definition write_state ::
  "string option \<Rightarrow> string list \<Rightarrow> jsval \<Rightarrow> store \<Rightarrow> outcome \<times> store"
where
  "write_state e path newVal s =
     (case state_set (blocked e s) (runningReaction s) (state s) path newVal of
        (Val v, w, fired) \<Rightarrow> (Val v, fire_all fired (s\<lparr>state := w\<rparr>))
      | (r, w, fired) \<Rightarrow> (r, s\<lparr>state := w\<rparr>))"

definition read_state :: "string list \<Rightarrow> store \<Rightarrow> outcome \<times> store" where
  "read_state path s =
     (case state_get (runningReaction s) (state s) path of (r, w) \<Rightarrow> (r, s\<lparr>state := w\<rparr>))"

subsection \<open>Running user code, getters, commit, dispatch\<close>

text \<open>
  The first argument is \<^verbatim>\<open>NODE_ENV\<close>; the second is the code of the functions that
  user code subscribes, by identity; the third bounds how deep calls and steps may
  nest (user code may call the store again without end).

  \<^item> \<open>exec\<close> runs a user function.
  \<^item> \<open>getter_read\<close> is the \<^verbatim>\<open>get()\<close> that \<^verbatim>\<open>registerGetter\<close> defines on \<^verbatim>\<open>_getters\<close>.
  \<^item> \<open>withCommit\<close> is \<^verbatim>\<open>_withCommit(() => { mutation(payload); })\<close>, where \<^verbatim>\<open>mutation\<close>
    is what \<^verbatim>\<open>this._mutations[type]\<close> found: the wrapper of \<^verbatim>\<open>registerMutation\<close> around
    the handler, or an inherited member.
  \<^item> \<open>commit\<close> and \<open>dispatch\<close> are the methods of the class, the latter with the
    wrapper of \<^verbatim>\<open>registerAction\<close> in place.
  \<^item> \<open>notify\<close> is \<^verbatim>\<open>subscribersCopy.forEach(sub => sub(mutationArguments, state))\<close>;
    a callback receives the two fields of \<^verbatim>\<open>mutationArguments\<close>.
\<close>

type_synonym fntable = "nat \<Rightarrow> jsval \<Rightarrow> jsval \<Rightarrow> prog"

function (sequential)
  exec :: "string option \<Rightarrow> fntable \<Rightarrow> nat \<Rightarrow> prog \<Rightarrow> store \<Rightarrow> outcome \<times> store" and
  getter_read :: "string option \<Rightarrow> fntable \<Rightarrow> nat \<Rightarrow> string \<Rightarrow> store \<Rightarrow> outcome \<times> store" and
  withCommit ::
    "string option \<Rightarrow> fntable \<Rightarrow> nat \<Rightarrow> (jsval \<Rightarrow> prog) member \<Rightarrow> string \<Rightarrow> jsval \<Rightarrow> store
      \<Rightarrow> outcome \<times> store" and
  commit :: "string option \<Rightarrow> fntable \<Rightarrow> nat \<Rightarrow> jsval \<Rightarrow> jsval \<Rightarrow> store \<Rightarrow> outcome \<times> store" and
  dispatch :: "string option \<Rightarrow> fntable \<Rightarrow> nat \<Rightarrow> jsval \<Rightarrow> jsval \<Rightarrow> store \<Rightarrow> outcome \<times> store" and
  notify ::
    "string option \<Rightarrow> fntable \<Rightarrow> nat \<Rightarrow> nat list \<Rightarrow> jsval \<Rightarrow> jsval \<Rightarrow> store \<Rightarrow> outcome \<times> store"
where
  "exec e fns n (Ret v) s = (Val v, s)"
| "exec e fns n (Raise v) s = (Exn (UserThrow v), s)"
| "exec e fns 0 _ s = (OutOfFuel, s)"
| "exec e fns (Suc n) (GetState path k) s =
     (case read_state path s of
        (Val v, s') \<Rightarrow> exec e fns n (k v) s'
      | (r, s') \<Rightarrow> (r, s'))"
| "exec e fns (Suc n) (SetState path newVal c) s =
     (case write_state e path newVal s of
        (Val _, s') \<Rightarrow> exec e fns n c s'
      | (r, s') \<Rightarrow> (r, s'))"
| "exec e fns (Suc n) (GetGetter g k) s =
     (case getter_read e fns n g s of
        (Val v, s') \<Rightarrow> exec e fns n (k v) s'
      | (r, s') \<Rightarrow> (r, s'))"
| "exec e fns (Suc n) (Commit t p c) s =
     (case commit e fns n t p s of
        (Val _, s') \<Rightarrow> exec e fns n c s'
      | (r, s') \<Rightarrow> (r, s'))"
| "exec e fns (Suc n) (Dispatch t p c) s =
     (case dispatch e fns n t p s of
        (Val _, s') \<Rightarrow> exec e fns n c s'
      | (r, s') \<Rightarrow> (r, s'))"
| "exec e fns (Suc n) (Subscribe fn c) s =
     exec e fns n c (s\<lparr>subscribers := set_add fn (subscribers s)\<rparr>)"
| "exec e fns (Suc n) (Unsubscribe fn c) s =
     exec e fns n c (s\<lparr>subscribers := set_delete fn (subscribers s)\<rparr>)"
| "exec e fns (Suc n) (GetGuard k) s =
     exec e fns n (k (isCommitting s))
       (s\<lparr>calls := calls s @ [Call (GuardRead (isCommitting s)) []]\<rparr>)"
| "getter_read e fns n g s =
     (case registry_get (getters s) g of
        Inherited v \<Rightarrow> (Val v, s)
      | Own ge \<Rightarrow>
          if isDirty ge
          then (case leave (GetterFn g) (calls s) (exec e fns n (handler ge) (enter s)) of
                  (Val v, s') \<Rightarrow>
                    (Val v, s'\<lparr>getters :=
                       AList.map_entry g (\<lambda>x. x\<lparr>cached := v, isDirty := False\<rparr>) (getters s')\<rparr>)
                | (r, s') \<Rightarrow> (r, s'))
          else (Val (cached ge), s))"
| "withCommit e fns n mutation key payload s =
     (let isCommitting0 = isCommitting s;
          s1 = s\<lparr>isCommitting := True\<rparr>
      in case (case mutation of
                 Own h \<Rightarrow>
                   leave (MutationFn key payload) (calls s1)
                     (exec e fns n (h payload) (enter s1))
               | Inherited v \<Rightarrow> (call_inherited v ''mutation'', s1)) of
           (Val _, s2) \<Rightarrow> (Val VUndefined, s2\<lparr>isCommitting := isCommitting0\<rparr>)
         | (r, s2) \<Rightarrow> (r, s2))"
| "commit e fns n type0 payload0 s =
     (case toObjectStyle e type0 payload0 of
        Inl x \<Rightarrow> (Exn x, s)
      | Inr (type, payload) \<Rightarrow>
          (case to_property_key type of
             None \<Rightarrow> (Unmodelled, s)
           | Some key \<Rightarrow>
               (case withCommit e fns n (registry_get (mutations s) key) key payload s of
                  (Val _, s') \<Rightarrow>
                    notify e fns n (setFromForeachable (subscribers s')) type payload s'
                | (r, s') \<Rightarrow> (r, s'))))"
| "dispatch e fns n type0 payload0 s =
     (case toObjectStyle e type0 payload0 of
        Inl x \<Rightarrow> (Exn x, s)
      | Inr (type, payload) \<Rightarrow>
          (case to_property_key type of
             None \<Rightarrow> (Unmodelled, s)
           | Some key \<Rightarrow>
               (case registry_get (actions s) key of
                  Own h \<Rightarrow>
                    (case leave (ActionFn key payload) (calls s)
                            (exec e fns n (h payload) (enter s)) of
                       (Val res, s') \<Rightarrow> (Val (if isPromise res then res else Promise_resolve res), s')
                     | (r, s') \<Rightarrow> (r, s'))
                | Inherited v \<Rightarrow> (call_inherited v ''action'', s))))"
| "notify e fns n [] type payload s = (Val VUndefined, s)"
| "notify e fns n (sub # subs) type payload s =
     (case leave (SubscriberFn sub type payload) (calls s)
             (exec e fns n (fns sub type payload) (enter s)) of
        (Val _, s') \<Rightarrow> notify e fns n subs type payload s'
      | (r, s') \<Rightarrow> (r, s'))"
  by pat_completeness auto

text \<open>
  Every call inside a call has less fuel; at equal fuel \<open>commit\<close> calls \<open>withCommit\<close>
  and \<open>notify\<close>, these call \<open>exec\<close>, and \<open>notify\<close> goes down its list.
\<close>

termination
  by (relation "measures
        [case_sum (case_sum (\<lambda>(e, f, n, _). n) (case_sum (\<lambda>(e, f, n, _). n) (\<lambda>(e, f, n, _). n)))
           (case_sum (\<lambda>(e, f, n, _). n) (case_sum (\<lambda>(e, f, n, _). n) (\<lambda>(e, f, n, _). n))),
         case_sum (case_sum (\<lambda>_. 0) (case_sum (\<lambda>_. 1) (\<lambda>_. 1)))
           (case_sum (\<lambda>_. 2) (case_sum (\<lambda>_. 1) (\<lambda>_. Suc 0))),
         case_sum (case_sum (\<lambda>_. 0) (case_sum (\<lambda>_. 0) (\<lambda>_. 0)))
           (case_sum (\<lambda>_. 0) (case_sum (\<lambda>_. 0) (\<lambda>(e, f, n, subs, _). length subs)))]")
     simp_all

declare getter_read.simps [simp del] withCommit.simps [simp del] commit.simps [simp del]
  dispatch.simps [simp del]

subsection \<open>Registration and the constructor\<close>

text \<open>
  \<^verbatim>\<open>registerGetter\<close>: \<^verbatim>\<open>if (store._getters[type])\<close> reads the property (running the
  \<^verbatim>\<open>get()\<close> of a getter that has the name already); then the getter's function runs
  once with \<^verbatim>\<open>runningReaction\<close> set, and the accessor is defined, which throws when
  the object has the property already.
\<close>

definition registerGetter ::
  "string option \<Rightarrow> fntable \<Rightarrow> nat \<Rightarrow> string \<Rightarrow> prog \<Rightarrow> store \<Rightarrow> outcome \<times> store"
where
  "registerGetter e fns n type fn s =
     (case getter_read e fns n type s of
        (Val present, s1) \<Rightarrow>
          if truthy present
          then (if NOT_PRODUCTION e then (Exn (Error (''duplicate getter '' @ type)), s1)
                else (Val VUndefined, s1))
          else
            (let s2 = s1\<lparr>pendingDirty := False, runningReaction := Some type\<rparr>
             in case leave (GetterFn type) (calls s2) (exec e fns n fn (enter s2)) of
                  (Val v, s3) \<Rightarrow>
                    (let s4 = s3\<lparr>runningReaction := None\<rparr>
                     in case map_of (getters s4) type of
                          Some _ \<Rightarrow> (Exn (TypeError (''Cannot redefine property: '' @ type)), s4)
                        | None \<Rightarrow>
                            (Val VUndefined,
                             s4\<lparr>getters := getters s4 @
                                  [(type, \<lparr>handler = fn, isDirty = pendingDirty s4, cached = v\<rparr>)]\<rparr>))
                | (r, s3) \<Rightarrow> (r, s3))
      | (r, s1) \<Rightarrow> (r, s1))"

text \<open>
  \<^verbatim>\<open>registerAction\<close> and \<^verbatim>\<open>registerMutation\<close>: the test \<^verbatim>\<open>if (store._actions[type])\<close>
  finds an own entry (a function) or an inherited member, both truthy.
\<close>

definition registerAction ::
  "string option \<Rightarrow> string \<Rightarrow> (jsval \<Rightarrow> prog) \<Rightarrow> store \<Rightarrow> outcome \<times> store"
where
  "registerAction e type h s =
     (if (case registry_get (actions s) type of Own _ \<Rightarrow> True | Inherited v \<Rightarrow> truthy v)
      then (if NOT_PRODUCTION e then (Exn (Error (''duplicate action '' @ type)), s)
            else (Val VUndefined, s))
      else (Val VUndefined, s\<lparr>actions := actions s @ [(type, h)]\<rparr>))"

definition registerMutation ::
  "string option \<Rightarrow> string \<Rightarrow> (jsval \<Rightarrow> prog) \<Rightarrow> store \<Rightarrow> outcome \<times> store"
where
  "registerMutation e type h s =
     (if (case registry_get (mutations s) type of Own _ \<Rightarrow> True | Inherited v \<Rightarrow> truthy v)
      then (if NOT_PRODUCTION e then (Exn (Error (''duplicate mutation '' @ type)), s)
            else (Val VUndefined, s))
      else (Val VUndefined, s\<lparr>mutations := mutations s @ [(type, h)]\<rparr>))"

text \<open>\<^verbatim>\<open>Object.entries(obj).forEach(handler)\<close>, which stops when the handler throws.\<close>

fun forEachEntry ::
  "(string \<times> 'a) list \<Rightarrow> (string \<Rightarrow> 'a \<Rightarrow> store \<Rightarrow> outcome \<times> store) \<Rightarrow> store \<Rightarrow> outcome \<times> store"
where
  "forEachEntry [] f s = (Val VUndefined, s)"
| "forEachEntry ((key, val) # rest) f s =
     (case f key val s of
        (Val _, s') \<Rightarrow> forEachEntry rest f s'
      | (r, s') \<Rightarrow> (r, s'))"

text \<open>
  The argument of the constructor: the entries of the objects \<^verbatim>\<open>state\<close>, \<^verbatim>\<open>getters\<close>,
  \<^verbatim>\<open>actions\<close> and \<^verbatim>\<open>mutations\<close> (an absent one is \<^verbatim>\<open>{}\<close>), and \<^verbatim>\<open>strict\<close>, which is
  \<^verbatim>\<open>true\<close> when absent.
\<close>

record options =
  opt_state :: "(string \<times> jsval) list"
  opt_getters :: "(string \<times> prog) list"
  opt_actions :: "(string \<times> (jsval \<Rightarrow> prog)) list"
  opt_mutations :: "(string \<times> (jsval \<Rightarrow> prog)) list"
  opt_strict :: "bool option"

definition new_Store :: "string option \<Rightarrow> fntable \<Rightarrow> nat \<Rightarrow> options \<Rightarrow> outcome \<times> store" where
  "new_Store e fns n opts =
     (let s0 = \<lparr>state = initState (opt_state opts), getters = [], actions = [], mutations = [],
                strict = (case opt_strict opts of None \<Rightarrow> True | Some b \<Rightarrow> b),
                isCommitting = False, runningReaction = None, pendingDirty = False,
                subscribers = [], calls = []\<rparr>
      in case forEachEntry (opt_getters opts) (registerGetter e fns n) s0 of
           (Val _, s1) \<Rightarrow>
             (case forEachEntry (opt_actions opts) (registerAction e) s1 of
                (Val _, s2) \<Rightarrow> forEachEntry (opt_mutations opts) (registerMutation e) s2
              | (r, s2) \<Rightarrow> (r, s2))
         | (r, s1) \<Rightarrow> (r, s1))"


definition unsubscribe :: "nat \<Rightarrow> store \<Rightarrow> store" where
  "unsubscribe fn s = s\<lparr>subscribers := set_delete fn (subscribers s)\<rparr>"

text \<open>
  The variant without dependency sets defines the accessor of a getter as
  \<^verbatim>\<open>get() { return getter() }\<close>, with no \<^verbatim>\<open>isDirty\<close> and no cached value: a read of
  \<^verbatim>\<open>getters[type]\<close> is a call of the getter's function.
\<close>

definition getter_read_uncached ::
  "string option \<Rightarrow> fntable \<Rightarrow> nat \<Rightarrow> string \<Rightarrow> prog \<Rightarrow> store \<Rightarrow> outcome \<times> store"
where
  "getter_read_uncached e fns n type fn s =
     leave (GetterFn type) (calls s) (exec e fns n fn (enter s))"

section \<open>Notions for the statements\<close>

text \<open>
  \<open>resolves w path x\<close>: the property path leads through nested wrappers of the state
  to a wrapper whose last key has the property \<open>x\<close>: an accessor made by
  \<^verbatim>\<open>_initState\<close> (a reactive cell), a data property, or none.
  \<open>wf_state\<close>: no set \<^verbatim>\<open>deps\<close> of the state holds a reaction twice.
  \<open>tag_of\<close>: which call an entry of the record of calls stands for.
  \<open>erase\<close>: the store without its record of calls; \<open>sim\<close>: the same result and the
  same store, the record of calls aside.
  \<open>reads_true\<close>: every read of \<^verbatim>\<open>isCommitting\<close> recorded in a call and in the calls
  inside it gave true; \<open>guarded\<close>: the guard is set and every recorded read gave true.
  \<open>callable\<close>: the value can be called. \<open>awaitable\<close>, in the words of the
  specification an object with callable \<^verbatim>\<open>then\<close> and \<^verbatim>\<open>catch\<close>: a promise of the
  engine, or a plain object that has both as properties of its own
  (\<^verbatim>\<open>Object.prototype\<close> has neither). \<open>has_then\<close>: an object with a callable
  \<^verbatim>\<open>then\<close>, whether or not it has a \<^verbatim>\<open>catch\<close>.
\<close>

fun resolves :: "wrapper \<Rightarrow> string list \<Rightarrow> slot option \<Rightarrow> bool" where
  "resolves w [] x = False"
| "resolves w [k] x = (map_of w k = x)"
| "resolves w (k # k' # ks) x =
     (case map_of w k of
        Some (Accessor (Wrapped sub) _) \<Rightarrow> resolves sub (k' # ks) x
      | _ \<Rightarrow> False)"

fun tag_of :: "event \<Rightarrow> tag" where
  "tag_of (Call t _) = t"

fun wf_slot :: "slot \<Rightarrow> bool" where
  "wf_slot (Data _) = True"
| "wf_slot (Accessor (Plain _) deps) = distinct deps"
| "wf_slot (Accessor (Wrapped sub) deps) = (distinct deps \<and> (\<forall>p \<in> set sub. wf_slot (snd p)))"

definition wf_state :: "wrapper \<Rightarrow> bool" where
  "wf_state w = (\<forall>p \<in> set w. wf_slot (snd p))"

definition erase :: "store \<Rightarrow> store" where
  "erase s = s\<lparr>calls := []\<rparr>"

definition sim :: "outcome \<times> store \<Rightarrow> outcome \<times> store \<Rightarrow> bool" where
  "sim x y = (fst x = fst y \<and> erase (snd x) = erase (snd y))"

fun reads_true :: "event \<Rightarrow> bool" where
  "reads_true (Call t inner) =
     ((case t of GuardRead b \<Rightarrow> b | _ \<Rightarrow> True) \<and> (\<forall>c \<in> set inner. reads_true c))"

definition guarded :: "store \<Rightarrow> bool" where
  "guarded s = (isCommitting s \<and> (\<forall>c \<in> set (calls s). reads_true c))"

fun callable :: "jsval \<Rightarrow> bool" where
  "callable (VFunction _) = True"
| "callable (VBuiltin n) = (n \<noteq> ''Object.prototype'')"
| "callable _ = False"

fun awaitable :: "jsval \<Rightarrow> bool" where
  "awaitable (VPromise _) = True"
| "awaitable (VObject _ fs) =
     (case (map_of fs ''then'', map_of fs ''catch'') of
        (Some t, Some c) \<Rightarrow> callable t \<and> callable c
      | _ \<Rightarrow> False)"
| "awaitable _ = False"

fun has_then :: "jsval \<Rightarrow> bool" where
  "has_then (VPromise _) = True"
| "has_then (VObject _ fs) = (case map_of fs ''then'' of Some t \<Rightarrow> callable t | None \<Rightarrow> False)"
| "has_then _ = False"

section \<open>Examples\<close>

text \<open>
  The store of the test suite: the state \<^verbatim>\<open>{a: 1}\<close>, the mutation
  \<^verbatim>\<open>TEST(state, n) { state.a += n }\<close> for a number \<^verbatim>\<open>n\<close>, registered also under the name
  \<^verbatim>\<open>undefined\<close>, the action that commits it, and a mutation that takes the amount
  from either call style (\<^verbatim>\<open>isObject(p) ? p.amount : p\<close>), registered under the name
  \<^verbatim>\<open>add\<close> and under the empty name.
\<close>

fun plus_num :: "jsval \<Rightarrow> jsval \<Rightarrow> jsval" where
  "plus_num (VNum a) (VNum b) = VNum (a + b)"
| "plus_num _ _ = VNaN"

definition TEST_mutation :: "jsval \<Rightarrow> prog" where
  "TEST_mutation n = GetState [''a''] (\<lambda>a. SetState [''a''] (plus_num a n) (Ret VUndefined))"

definition TEST_action :: "jsval \<Rightarrow> prog" where
  "TEST_action n = Commit (VStr ''TEST'') n (Ret VUndefined)"

definition add_mutation :: "jsval \<Rightarrow> prog" where
  "add_mutation p = TEST_mutation (if isObject p then get_prop p ''amount'' else p)"

definition no_callbacks :: fntable where
  "no_callbacks fn type payload = Ret VUndefined"

definition test_options :: options where
  "test_options =
     \<lparr>opt_state = [(''a'', VNum 1)], opt_getters = [],
      opt_actions = [(''TEST'', TEST_action), (''undefined'', TEST_action)],
      opt_mutations =
        [(''TEST'', TEST_mutation), (''undefined'', TEST_mutation), (''add'', add_mutation),
         ([], add_mutation)],
      opt_strict = None\<rparr>"

definition test_store :: store where
  "test_store = snd (new_Store (Some ''test'') no_callbacks 10 test_options)"

definition lax_store :: store where
  "lax_store =
     snd (new_Store (Some ''test'') no_callbacks 10 (test_options\<lparr>opt_strict := Some False\<rparr>))"

text \<open>
  A second store: the state \<^verbatim>\<open>{a: 0, b: 1}\<close>, the getter \<^verbatim>\<open>g: s => s.a > 0 ? s.b : 0\<close>,
  mutations that assign \<^verbatim>\<open>a\<close> and \<^verbatim>\<open>b\<close>, a mutation that throws, an action that
  returns a number, one that returns an object with \<^verbatim>\<open>then\<close> and \<^verbatim>\<open>catch\<close>, one
  that returns an object with \<^verbatim>\<open>then\<close> alone and one that throws. The function 1,
  when called as a subscriber, subscribes the function 3 and unsubscribes the
  function 2; the function 4 throws; the other functions do nothing.
\<close>

definition positive :: "jsval \<Rightarrow> bool" where
  "positive v = (case v of VNum k \<Rightarrow> 0 < k | _ \<Rightarrow> False)"

definition g_getter :: prog where
  "g_getter = GetState [''a''] (\<lambda>a. if positive a then GetState [''b''] Ret else Ret (VNum 0))"

definition setA_mutation :: "jsval \<Rightarrow> prog" where
  "setA_mutation n = SetState [''a''] n (Ret VUndefined)"

definition setB_mutation :: "jsval \<Rightarrow> prog" where
  "setB_mutation n = SetState [''b''] n (Ret VUndefined)"

definition boom_mutation :: "jsval \<Rightarrow> prog" where
  "boom_mutation p = Raise (VStr ''boom'')"

definition plain_action :: "jsval \<Rightarrow> prog" where
  "plain_action p = Ret (VNum 5)"

definition thenable :: jsval where
  "thenable = VObject 7 [(''then'', VFunction 1), (''catch'', VFunction 2)]"

definition thenable_action :: "jsval \<Rightarrow> prog" where
  "thenable_action p = Ret thenable"

definition only_then :: jsval where
  "only_then = VObject 8 [(''then'', VFunction 3)]"

definition only_then_action :: "jsval \<Rightarrow> prog" where
  "only_then_action p = Ret only_then"

definition throwing_action :: "jsval \<Rightarrow> prog" where
  "throwing_action p = Raise (VStr ''failed'')"

definition demo_callbacks :: fntable where
  "demo_callbacks fn type payload =
     (if fn = 1 then Subscribe 3 (Unsubscribe 2 (Ret VUndefined))
      else if fn = 4 then Raise (VStr ''stop'')
      else Ret VUndefined)"

definition demo_options :: options where
  "demo_options =
     \<lparr>opt_state = [(''a'', VNum 0), (''b'', VNum 1)],
      opt_getters = [(''g'', g_getter)],
      opt_actions =
        [(''plain'', plain_action), (''thenable'', thenable_action),
         (''onlyThen'', only_then_action), (''throwing'', throwing_action)],
      opt_mutations =
        [(''setA'', setA_mutation), (''setB'', setB_mutation), (''boom'', boom_mutation)],
      opt_strict = None\<rparr>"

definition demo_store :: store where
  "demo_store = snd (new_Store (Some ''test'') demo_callbacks 10 demo_options)"

text \<open>
  A run on the second store: \<^verbatim>\<open>commit("setA", 1)\<close>, a read of \<^verbatim>\<open>getters.g\<close>,
  \<^verbatim>\<open>commit("setB", 2)\<close>; the second store with the functions 1 and 2 subscribed, and
  with the functions 4 and 2 subscribed.
\<close>

definition demo_after_setA :: store where
  "demo_after_setA =
     snd (commit (Some ''test'') demo_callbacks 10 (VStr ''setA'') (VNum 1) demo_store)"

definition demo_after_read :: store where
  "demo_after_read = snd (getter_read (Some ''test'') demo_callbacks 10 ''g'' demo_after_setA)"

definition demo_after_setB :: store where
  "demo_after_setB =
     snd (commit (Some ''test'') demo_callbacks 10 (VStr ''setB'') (VNum 2) demo_after_read)"



definition demo_after_boom :: store where
  "demo_after_boom =
     snd (commit (Some ''test'') demo_callbacks 10 (VStr ''boom'') VUndefined demo_store)"

section \<open>Auxiliary facts\<close>

subsection \<open>One write and one read along a property path\<close>

text \<open>
  What \<open>state_set\<close> and \<open>state_get\<close> do at the end of a path, by the kind of property
  found there.
\<close>

lemma resolves_update_last [simp]: "resolves (AList.update k v w) [k] x = (Some v = x)"
  by (simp add: update_conv')

lemma resolves_update_step [simp]:
  "resolves (AList.update k (Accessor (Wrapped sub) d) w) (k # k' # ks) x = resolves sub (k' # ks) x"
  by (simp add: update_conv')

lemma state_set_blocked:
  "resolves w path (Some (Accessor cur deps)) \<Longrightarrow>
   fst (state_set True rr w path v) =
     Exn (Error ''do not mutate store state outside mutation handlers'') \<and>
   snd (snd (state_set True rr w path v)) = [] \<and>
   resolves (fst (snd (state_set True rr w path v))) path (Some (Accessor cur deps))"
proof (induction "True" rr w path v rule: state_set.induct)
  case (3 rr w k k' ks newVal)
  then show ?case
    by (auto simp: update_conv' split: option.splits slot.splits cellval.splits prod.splits)
qed (auto simp: update_conv' map_add_def)

lemma state_set_cell:
  "resolves w path (Some (Accessor cur deps)) \<Longrightarrow>
   fst (state_set False rr w path v) = Val v \<and>
   snd (snd (state_set False rr w path v)) = (if changed v cur then deps else []) \<and>
   resolves (fst (snd (state_set False rr w path v))) path (Some (Accessor (Plain v) deps))"
proof (induction "False" rr w path v rule: state_set.induct)
  case (3 rr w k k' ks newVal)
  then show ?case
    by (auto simp: update_conv' split: option.splits slot.splits cellval.splits prod.splits)
qed (auto simp: update_conv' map_add_def)

lemma state_set_absent:
  "resolves w path None \<Longrightarrow> last path \<noteq> ''__proto__'' \<Longrightarrow>
   fst (state_set b rr w path v) = Val v \<and>
   snd (snd (state_set b rr w path v)) = [] \<and>
   resolves (fst (snd (state_set b rr w path v))) path (Some (Data v))"
proof (induction b rr w path v rule: state_set.induct)
  case (3 b rr w k k' ks newVal)
  then show ?case
    by (auto simp: update_conv' split: option.splits slot.splits cellval.splits prod.splits)
qed (auto simp: update_conv' map_add_def)

lemma state_set_data:
  "resolves w path (Some (Data x)) \<Longrightarrow>
   fst (state_set b rr w path v) = Val v \<and>
   snd (snd (state_set b rr w path v)) = [] \<and>
   resolves (fst (snd (state_set b rr w path v))) path (Some (Data v))"
proof (induction b rr w path v rule: state_set.induct)
  case (3 b rr w k k' ks newVal)
  then show ?case
    by (auto simp: update_conv' split: option.splits slot.splits cellval.splits prod.splits)
qed (auto simp: update_conv' map_add_def)

lemma state_get_data:
  "resolves w path (Some (Data x)) \<Longrightarrow>
   fst (state_get rr w path) = Val x \<and> resolves (snd (state_get rr w path)) path (Some (Data x))"
proof (induction rr w path rule: state_get.induct)
  case (2 rr w k ks)
  then show ?case
    by (cases ks) (auto simp: update_conv' split: option.splits slot.splits cellval.splits prod.splits)
qed (auto simp: update_conv' map_add_def)

subsection \<open>Reactions\<close>

text \<open>
  A reaction changes the flag of its getter and nothing else of the store.
\<close>

lemma fire_fields [simp]:
  "state (fire r s) = state s" "strict (fire r s) = strict s"
  "isCommitting (fire r s) = isCommitting s" "subscribers (fire r s) = subscribers s"
  "runningReaction (fire r s) = runningReaction s"
  "actions (fire r s) = actions s" "mutations (fire r s) = mutations s"
  "calls (fire r s) = calls s @ [Call (Reaction r) []]"
  by (simp_all add: fire_def split: option.splits)

lemma fire_all_fields [simp]:
  "state (fire_all rs s) = state s" "strict (fire_all rs s) = strict s"
  "isCommitting (fire_all rs s) = isCommitting s" "subscribers (fire_all rs s) = subscribers s"
  "runningReaction (fire_all rs s) = runningReaction s"
  "actions (fire_all rs s) = actions s" "mutations (fire_all rs s) = mutations s"
  "calls (fire_all rs s) = calls s @ map (\<lambda>r. Call (Reaction r) []) rs"
  unfolding fire_all_def by (induction rs arbitrary: s) simp_all

lemma fire_all_Nil [simp]: "fire_all [] s = s"
  by (simp add: fire_all_def)

lemma map_of_map_entry:
  "map_of (AList.map_entry k f al) k' =
     (if k' = k then map_option f (map_of al k) else map_of al k')"
  by (induction al) auto

lemma fire_getter:
  "map_of (getters s) g = Some ge \<Longrightarrow>
   map_of (getters (fire r s)) g = Some (if g = r then ge\<lparr>isDirty := True\<rparr> else ge)"
  by (auto simp: fire_def map_of_map_entry split: option.splits)

lemma fire_all_getter:
  "map_of (getters s) g = Some ge \<Longrightarrow>
   map_of (getters (fire_all rs s)) g = Some (if g \<in> set rs then ge\<lparr>isDirty := True\<rparr> else ge)"
  unfolding fire_all_def
proof (induction rs arbitrary: s ge)
  case Nil
  then show ?case by simp
next
  case (Cons r rs)
  from Cons.IH [OF fire_getter [OF Cons.prems, of r]] show ?case by auto
qed

lemma write_state_blocked:
  assumes "resolves (state s) path (Some (Accessor cur deps))" and "blocked e s"
  shows "write_state e path v s =
           (Exn (Error ''do not mutate store state outside mutation handlers''),
            s\<lparr>state := fst (snd (state_set True (runningReaction s) (state s) path v))\<rparr>)"
  using state_set_blocked [OF assms(1), of "runningReaction s" v] assms(2)
  by (cases "state_set True (runningReaction s) (state s) path v") (simp add: write_state_def)

lemma write_state_cell:
  assumes "resolves (state s) path (Some (Accessor cur deps))" and "\<not> blocked e s"
  shows "write_state e path v s =
           (Val v, fire_all (if changed v cur then deps else [])
                     (s\<lparr>state := fst (snd (state_set False (runningReaction s) (state s) path v))\<rparr>))"
  using state_set_cell [OF assms(1), of "runningReaction s" v] assms(2)
  by (cases "state_set False (runningReaction s) (state s) path v") (simp add: write_state_def)

lemma write_state_plain:
  assumes "resolves (state s) path None \<and> last path \<noteq> ''__proto__'' \<or>
           resolves (state s) path (Some (Data x))"
  shows "write_state e path v s =
           (Val v, s\<lparr>state := fst (snd (state_set (blocked e s) (runningReaction s) (state s) path v))\<rparr>)"
  using assms state_set_absent [of "state s" path "blocked e s" "runningReaction s" v]
    state_set_data [of "state s" path x "blocked e s" "runningReaction s" v]
  by (cases "state_set (blocked e s) (runningReaction s) (state s) path v")
     (auto simp add: write_state_def)

subsection \<open>The sets of dependents\<close>

text \<open>
  \<^verbatim>\<open>deps\<close> is a set: \<^verbatim>\<open>_initState\<close> makes it empty, a read adds the running reaction when
  it is not in it yet, a write leaves it as it is.
\<close>

lemma wf_initState: "wf_state (initState xs)"
  by (induction xs rule: initState.induct) (auto simp: wf_state_def)

lemma distinct_set_add: "distinct xs \<Longrightarrow> distinct (set_add x xs)"
  by (simp add: set_add_def)

lemma distinct_track: "distinct deps \<Longrightarrow> distinct (track rr deps)"
  by (simp add: track_def distinct_set_add split: option.splits)

lemma track_again: "track rr (track rr deps) = track rr deps"
  by (simp add: track_def set_add_def split: option.splits)

lemma set_update_subset: "set (AList.update k v w) \<subseteq> insert (k, v) (set w)"
  by (induction w) auto

lemma wf_state_update: "wf_state w \<Longrightarrow> wf_slot v \<Longrightarrow> wf_state (AList.update k v w)"
  using set_update_subset [of k v w] by (auto simp: wf_state_def)

lemma wf_state_lookup: "wf_state w \<Longrightarrow> map_of w k = Some sl \<Longrightarrow> wf_slot sl"
  using map_of_SomeD [of w k sl] by (force simp: wf_state_def)

lemma resolves_distinct:
  "wf_state w \<Longrightarrow> resolves w path (Some (Accessor cur deps)) \<Longrightarrow> distinct deps"
proof (induction w path "Some (Accessor cur deps)" rule: resolves.induct)
  case (2 w k)
  then show ?case by (cases cur) (auto dest: wf_state_lookup)
next
  case (3 w k k' ks)
  then show ?case
    by (auto simp: wf_state_def [symmetric] split: option.splits slot.splits cellval.splits
        dest!: wf_state_lookup)
qed simp

lemma wf_state_get: "wf_state w \<Longrightarrow> wf_state (snd (state_get rr w path))"
proof (induction rr w path rule: state_get.induct)
  case (2 rr w k ks)
  show ?case
  proof (cases "map_of w k")
    case None
    with 2 show ?thesis by simp
  next
    case (Some sl)
    note wsl = wf_state_lookup [OF "2.prems" Some]
    show ?thesis
    proof (cases sl)
      case (Data v)
      with Some 2 show ?thesis by simp
    next
      case (Accessor cv deps)
      show ?thesis
      proof (cases cv)
        case (Plain v)
        with Accessor Some wsl "2.prems" show ?thesis
          by (simp add: wf_state_update distinct_track)
      next
        case (Wrapped sub)
        with Accessor wsl have "wf_state sub" "distinct deps" by (simp_all add: wf_state_def)
        with "2.IH" [OF Some Accessor Wrapped] have "wf_state (snd (state_get rr sub ks))" by simp
        with Wrapped Accessor Some \<open>distinct deps\<close> "2.prems" show ?thesis
          by (auto simp: wf_state_def [symmetric] distinct_track split: prod.splits
              intro!: wf_state_update)
      qed
    qed
  qed
qed simp

lemma wf_state_set: "wf_state w \<Longrightarrow> wf_state (fst (snd (state_set b rr w path v)))"
proof (induction b rr w path v rule: state_set.induct)
  case (2 b rr w k newVal)
  show ?case
  proof (cases "map_of w k")
    case None
    with 2 show ?thesis by (auto simp: wf_state_def)
  next
    case (Some sl)
    note wsl = wf_state_lookup [OF "2.prems" Some]
    show ?thesis
    proof (cases sl)
      case (Data x)
      with Some 2 show ?thesis by (simp add: wf_state_update)
    next
      case (Accessor cv deps)
      with wsl have "distinct deps" by (cases cv) simp_all
      with Accessor Some "2.prems" show ?thesis by (simp add: wf_state_update)
    qed
  qed
next
  case (3 b rr w k k' ks newVal)
  show ?case
  proof (cases "map_of w k")
    case None
    with 3 show ?thesis by simp
  next
    case (Some sl)
    note wsl = wf_state_lookup [OF "3.prems" Some]
    show ?thesis
    proof (cases sl)
      case (Data x)
      with Some 3 show ?thesis by simp
    next
      case (Accessor cv deps)
      show ?thesis
      proof (cases cv)
        case (Plain x)
        with Accessor Some wsl "3.prems" show ?thesis
          by (simp add: wf_state_update distinct_track)
      next
        case (Wrapped sub)
        with Accessor wsl have "wf_state sub" "distinct deps" by (simp_all add: wf_state_def)
        with "3.IH" [OF Some Accessor Wrapped]
        have "wf_state (fst (snd (state_set b rr sub (k' # ks) newVal)))" by simp
        with Wrapped Accessor Some \<open>distinct deps\<close> "3.prems" show ?thesis
          by (auto simp: wf_state_def [symmetric] distinct_track split: prod.splits
              intro!: wf_state_update)
      qed
    qed
  qed
qed simp

lemma wf_read_state: "wf_state (state s) \<Longrightarrow> wf_state (state (snd (read_state path s)))"
  using wf_state_get [of "state s" "runningReaction s" path]
  by (cases "state_get (runningReaction s) (state s) path") (simp add: read_state_def)

lemma wf_write_state: "wf_state (state s) \<Longrightarrow> wf_state (state (snd (write_state e path v s)))"
  using wf_state_set [of "state s" "blocked e s" "runningReaction s" path v]
  by (cases "state_set (blocked e s) (runningReaction s) (state s) path v")
     (auto simp: write_state_def split: outcome.splits)

subsection \<open>Invariants of a run\<close>

text \<open>
  A property of the store that every step keeps is kept by every run of user code, of
  a getter, of \<^verbatim>\<open>commit\<close> and of \<^verbatim>\<open>dispatch\<close>, however the calls nest and however they
  end.
\<close>

lemma leave_fields [simp]:
  "fst (leave t prior rs) = fst rs"
  "state (snd (leave t prior rs)) = state (snd rs)"
  "isCommitting (snd (leave t prior rs)) = isCommitting (snd rs)"
  "strict (snd (leave t prior rs)) = strict (snd rs)"
  "subscribers (snd (leave t prior rs)) = subscribers (snd rs)"
  "getters (snd (leave t prior rs)) = getters (snd rs)"
  "calls (snd (leave t prior rs)) = prior @ [Call t (calls (snd rs))]"
  by (simp_all add: leave_def)

lemma enter_fields [simp]:
  "state (enter s) = state s" "isCommitting (enter s) = isCommitting s"
  "strict (enter s) = strict s" "subscribers (enter s) = subscribers s"
  "getters (enter s) = getters s" "calls (enter s) = []"
  "mutations (enter s) = mutations s" "actions (enter s) = actions s"
  "runningReaction (enter s) = runningReaction s"
  by (simp_all add: enter_def)

lemma exec_invariant:
  assumes rd: "\<And>s p. P s \<Longrightarrow> P (snd (read_state p s))"
    and wr: "\<And>s e p v. P s \<Longrightarrow> P (snd (write_state e p v s))"
    and su: "\<And>s u. P s \<Longrightarrow> P (s\<lparr>subscribers := u\<rparr>)"
    and gr: "\<And>s. P s \<Longrightarrow> P (s\<lparr>calls := calls s @ [Call (GuardRead (isCommitting s)) []]\<rparr>)"
    and en: "\<And>s. P s \<Longrightarrow> P (enter s)"
    and co: "\<And>s. P s \<Longrightarrow> P (s\<lparr>isCommitting := True\<rparr>)"
    and lv: "\<And>s x t. P s \<Longrightarrow> P (snd x) \<Longrightarrow> \<forall>b. t \<noteq> GuardRead b \<Longrightarrow> P (snd (leave t (calls s) x))"
    and ge: "\<And>s g f. P s \<Longrightarrow> P (s\<lparr>getters := AList.map_entry g f (getters s)\<rparr>)"
    and re: "\<And>s s'. P s \<Longrightarrow> P s' \<Longrightarrow> P (s'\<lparr>isCommitting := isCommitting s\<rparr>)"
  shows "P s \<Longrightarrow> P (snd (exec e fns n c s))"
    and "P s \<Longrightarrow> P (snd (getter_read e fns n g s))"
    and "P s \<Longrightarrow> P (snd (withCommit e fns n m key payload s))"
    and "P s \<Longrightarrow> P (snd (commit e fns n t p s))"
    and "P s \<Longrightarrow> P (snd (dispatch e fns n t p s))"
    and "P s \<Longrightarrow> P (snd (notify e fns n subs ty pl s))"
proof (induction e fns n c s and e fns n g s and e fns n m key payload s and e fns n t p s
    and e fns n t p s and e fns n subs ty pl s
    rule: exec_getter_read_withCommit_commit_dispatch_notify.induct)
  case (4 e fns n path k s)
  obtain r s1 where x: "read_state path s = (r, s1)" by (cases "read_state path s")
  from rd [OF "4.prems", of path] x have p: "P s1" by simp
  show ?case
    by (cases r) (use x p "4.IH" [OF x [symmetric]] in simp_all)
next
  case (5 e fns n path newVal c s)
  obtain r s1 where x: "write_state e path newVal s = (r, s1)"
    by (cases "write_state e path newVal s")
  from wr [OF "5.prems", of e path newVal] x have p: "P s1" by simp
  show ?case
    by (cases r) (use x p "5.IH" [OF x [symmetric]] in simp_all)
next
  case (6 e fns n g k s)
  obtain r s1 where x: "getter_read e fns n g s = (r, s1)" by (cases "getter_read e fns n g s")
  from "6.IH"(1) [OF "6.prems"] x have p: "P s1" by simp
  show ?case
    by (cases r) (use x p "6.IH"(2) [OF x [symmetric]] in simp_all)
next
  case (7 e fns n t p c s)
  obtain r s1 where x: "commit e fns n t p s = (r, s1)" by (cases "commit e fns n t p s")
  from "7.IH"(1) [OF "7.prems"] x have p: "P s1" by simp
  show ?case
    by (cases r) (use x p "7.IH"(2) [OF x [symmetric]] in simp_all)
next
  case (8 e fns n t p c s)
  obtain r s1 where x: "dispatch e fns n t p s = (r, s1)" by (cases "dispatch e fns n t p s")
  from "8.IH"(1) [OF "8.prems"] x have p: "P s1" by simp
  show ?case
    by (cases r) (use x p "8.IH"(2) [OF x [symmetric]] in simp_all)
next
  case (9 e fns n fn c s)
  from "9.IH" [OF su [OF "9.prems"]] show ?case by simp
next
  case (10 e fns n fn c s)
  from "10.IH" [OF su [OF "10.prems"]] show ?case by simp
next
  case (11 e fns n k s)
  from "11.IH" [OF gr [OF "11.prems"]] show ?case by simp
next
  case (12 e fns n g s)
  show ?case
  proof (cases "registry_get (getters s) g")
    case (Inherited v)
    with 12 show ?thesis by (simp add: getter_read.simps)
  next
    case (Own ge)
    show ?thesis
    proof (cases "isDirty ge")
      case False
      with Own 12 show ?thesis by (simp add: getter_read.simps)
    next
      case True
      let ?x = "exec e fns n (handler ge) (enter s)"
      from "12.IH" [OF Own True en [OF "12.prems"]] have "P (snd ?x)" .
      from lv [OF "12.prems" this, of "GetterFn g"]
      have l: "P (snd (leave (GetterFn g) (calls s) ?x))" by simp
      obtain r s1 where y: "leave (GetterFn g) (calls s) ?x = (r, s1)"
        by (cases "leave (GetterFn g) (calls s) ?x")
      with l have p: "P s1" by simp
      show ?thesis
        by (cases r) (use Own True y p ge [OF p] in \<open>simp_all add: getter_read.simps\<close>)
    qed
  qed
next
  case (13 e fns n m key payload s)
  let ?s1 = "s\<lparr>isCommitting := True\<rparr>"
  have p1: "P ?s1" by (rule co [OF "13.prems"])
  show ?case
  proof (cases m)
    case (Inherited v)
    show ?thesis
      by (cases "call_inherited v ''mutation''")
         (use Inherited p1 re [OF "13.prems" p1] in \<open>simp_all add: withCommit.simps\<close>)
  next
    case (Own h)
    let ?x = "exec e fns n (h payload) (enter ?s1)"
    from "13.IH" [OF refl refl Own en [OF p1]] have "P (snd ?x)" .
    from lv [OF p1 this, of "MutationFn key payload"]
    have l: "P (snd (leave (MutationFn key payload) (calls ?s1) ?x))" by simp
    obtain r s2 where y: "leave (MutationFn key payload) (calls ?s1) ?x = (r, s2)"
      by (cases "leave (MutationFn key payload) (calls ?s1) ?x")
    with l have p: "P s2" by simp
    show ?thesis
      by (cases r) (use Own y p re [OF "13.prems" p] in \<open>simp_all add: withCommit.simps\<close>)
  qed
next
  case (14 e fns n type0 payload0 s)
  show ?case
  proof (cases "toObjectStyle e type0 payload0")
    case (Inl x)
    with 14 show ?thesis by (simp add: commit.simps)
  next
    case (Inr tp)
    obtain type payload where tp: "tp = (type, payload)" by (cases tp)
    show ?thesis
    proof (cases "to_property_key type")
      case None
      with Inr tp 14 show ?thesis by (simp add: commit.simps)
    next
      case (Some key)
      obtain r s1 where weq:
        "withCommit e fns n (registry_get (mutations s) key) key payload s = (r, s1)"
        by (cases "withCommit e fns n (registry_get (mutations s) key) key payload s")
      from "14.IH"(1) [OF Inr tp [symmetric] Some "14.prems"] weq have w: "P s1" by simp
      show ?thesis
      proof (cases r)
        case (Val u)
        from "14.IH"(2) [OF Inr tp [symmetric] Some weq [symmetric] Val w]
        show ?thesis using Inr tp Some Val weq by (simp add: commit.simps)
      qed (use Inr tp Some w weq in \<open>simp_all add: commit.simps\<close>)
    qed
  qed
next
  case (15 e fns n type0 payload0 s)
  show ?case
  proof (cases "toObjectStyle e type0 payload0")
    case (Inl x)
    with 15 show ?thesis by (simp add: dispatch.simps)
  next
    case (Inr tp)
    obtain type payload where tp: "tp = (type, payload)" by (cases tp)
    show ?thesis
    proof (cases "to_property_key type")
      case None
      with Inr tp 15 show ?thesis by (simp add: dispatch.simps)
    next
      case (Some key)
      show ?thesis
      proof (cases "registry_get (actions s) key")
        case (Inherited v)
        with Inr tp Some 15 show ?thesis by (simp add: dispatch.simps)
      next
        case (Own h)
        let ?x = "exec e fns n (h payload) (enter s)"
        from "15.IH" [OF Inr tp [symmetric] Some Own en [OF "15.prems"]] have "P (snd ?x)" .
        from lv [OF "15.prems" this, of "ActionFn key payload"]
        have l: "P (snd (leave (ActionFn key payload) (calls s) ?x))" by simp
        obtain r s1 where y: "leave (ActionFn key payload) (calls s) ?x = (r, s1)"
          by (cases "leave (ActionFn key payload) (calls s) ?x")
        with l have p: "P s1" by simp
        show ?thesis
          by (cases r) (use Inr tp Some Own y p in \<open>simp_all add: dispatch.simps\<close>)
      qed
    qed
  qed
next
  case (17 e fns n sub subs type payload s)
  let ?x = "exec e fns n (fns sub type payload) (enter s)"
  from "17.IH"(1) [OF en [OF "17.prems"]] have "P (snd ?x)" .
  from lv [OF "17.prems" this, of "SubscriberFn sub type payload"]
  have l: "P (snd (leave (SubscriberFn sub type payload) (calls s) ?x))" by simp
  obtain r s1 where y: "leave (SubscriberFn sub type payload) (calls s) ?x = (r, s1)"
    by (cases "leave (SubscriberFn sub type payload) (calls s) ?x")
  with l have p: "P s1" by simp
  show ?case
  proof (cases r)
    case (Val u)
    from "17.IH"(2) [OF y [symmetric] Val p] y Val show ?thesis by simp
  qed (use p y in simp_all)
qed simp_all

lemma wf_exec:
  "wf_state (state s) \<Longrightarrow> wf_state (state (snd (exec e fns n c s)))"
  "wf_state (state s) \<Longrightarrow> wf_state (state (snd (getter_read e fns n g s)))"
  "wf_state (state s) \<Longrightarrow> wf_state (state (snd (withCommit e fns n m key payload s)))"
  "wf_state (state s) \<Longrightarrow> wf_state (state (snd (commit e fns n t p s)))"
  "wf_state (state s) \<Longrightarrow> wf_state (state (snd (dispatch e fns n t p s)))"
  "wf_state (state s) \<Longrightarrow> wf_state (state (snd (notify e fns n subs ty pl s)))"
  by (rule exec_invariant [where P = "\<lambda>s. wf_state (state s)"];
      simp add: wf_read_state wf_write_state)+

subsection \<open>Data properties, the copy of the subscriber set\<close>

lemma read_state_data:
  "resolves (state s) path (Some (Data x)) \<Longrightarrow>
   fst (read_state path s) = Val x \<and>
   resolves (state (snd (read_state path s))) path (Some (Data x)) \<and>
   getters (snd (read_state path s)) = getters s \<and> calls (snd (read_state path s)) = calls s"
  using state_get_data [of "state s" path x "runningReaction s"]
  by (cases "state_get (runningReaction s) (state s) path") (simp add: read_state_def)

lemma read_state_data_root:
  "map_of (state s) k = Some (Data x) \<Longrightarrow> read_state [k] s = (Val x, s)"
  by (simp add: read_state_def)




subsection \<open>The record of calls\<close>

text \<open>
  The record of calls is kept for the statements only: two stores that differ in it
  alone give the same results and stay the same otherwise.
\<close>

lemma enter_erase: "enter s = erase s"
  by (simp add: enter_def erase_def)

lemma erase_fields [simp]:
  "state (erase s) = state s" "getters (erase s) = getters s" "actions (erase s) = actions s"
  "mutations (erase s) = mutations s" "strict (erase s) = strict s"
  "isCommitting (erase s) = isCommitting s" "runningReaction (erase s) = runningReaction s"
  "pendingDirty (erase s) = pendingDirty s" "subscribers (erase s) = subscribers s"
  by (simp_all add: erase_def)

lemma erase_eqD:
  assumes "erase s = erase t"
  shows "state s = state t" "getters s = getters t" "actions s = actions t"
    "mutations s = mutations t" "strict s = strict t" "isCommitting s = isCommitting t"
    "runningReaction s = runningReaction t" "pendingDirty s = pendingDirty t"
    "subscribers s = subscribers t"
  using arg_cong [OF assms, of state] arg_cong [OF assms, of getters]
    arg_cong [OF assms, of actions] arg_cong [OF assms, of mutations]
    arg_cong [OF assms, of strict] arg_cong [OF assms, of isCommitting]
    arg_cong [OF assms, of runningReaction] arg_cong [OF assms, of pendingDirty]
    arg_cong [OF assms, of subscribers]
  by simp_all

lemma erase_update [simp]:
  "erase (s\<lparr>calls := c\<rparr>) = erase s"
  "erase (s\<lparr>state := w\<rparr>) = (erase s)\<lparr>state := w\<rparr>"
  "erase (s\<lparr>subscribers := u\<rparr>) = (erase s)\<lparr>subscribers := u\<rparr>"
  "erase (s\<lparr>isCommitting := b\<rparr>) = (erase s)\<lparr>isCommitting := b\<rparr>"
  "erase (s\<lparr>getters := g\<rparr>) = (erase s)\<lparr>getters := g\<rparr>"
  "erase (s\<lparr>pendingDirty := b\<rparr>) = (erase s)\<lparr>pendingDirty := b\<rparr>"
  by (simp_all add: erase_def)

lemma erase_leave [simp]: "erase (snd (leave t prior rs)) = erase (snd rs)"
  by (simp add: leave_def)

lemma erase_fire: "erase s = erase t \<Longrightarrow> erase (fire r s) = erase (fire r t)"
proof -
  assume a: "erase s = erase t"
  have g: "getters s = getters t" by (rule erase_eqD(2) [OF a])
  show ?thesis
    by (cases "map_of (getters t) r") (simp_all add: fire_def g a)
qed

lemma erase_fire_all: "erase s = erase t \<Longrightarrow> erase (fire_all rs s) = erase (fire_all rs t)"
  unfolding fire_all_def
proof (induction rs arbitrary: s t)
  case Nil
  then show ?case by simp
next
  case (Cons r rs)
  from Cons.IH [OF erase_fire [OF Cons.prems, of r]] show ?case by simp
qed

lemma erase_read_state:
  assumes a: "erase s = erase t"
  shows "fst (read_state p s) = fst (read_state p t) \<and>
         erase (snd (read_state p s)) = erase (snd (read_state p t))"
proof -
  have e: "state s = state t" "runningReaction s = runningReaction t"
    by (rule erase_eqD [OF a])+
  show ?thesis
    by (cases "state_get (runningReaction t) (state t) p") (simp add: read_state_def e a)
qed

lemma blocked_erase: "erase s = erase t \<Longrightarrow> blocked e s = blocked e t"
  using erase_eqD(5,6) [of s t] by (simp add: blocked_def)

lemma erase_write_state:
  assumes a: "erase s = erase t"
  shows "fst (write_state e p v s) = fst (write_state e p v t) \<and>
         erase (snd (write_state e p v s)) = erase (snd (write_state e p v t))"
proof -
  have e: "state s = state t" "runningReaction s = runningReaction t"
    by (rule erase_eqD [OF a])+
  have b: "blocked e s = blocked e t" by (rule blocked_erase [OF a])
  obtain r w fired where x:
    "state_set (blocked e t) (runningReaction t) (state t) p v = (r, w, fired)"
    by (cases "state_set (blocked e t) (runningReaction t) (state t) p v")
  have f: "erase (fire_all fired (s\<lparr>state := w\<rparr>)) = erase (fire_all fired (t\<lparr>state := w\<rparr>))"
    by (rule erase_fire_all) (simp add: a)
  show ?thesis
    by (cases r) (simp_all add: write_state_def e b x f a)
qed

lemma sim_pair: "sim (r, s) (r', t) = (r = r' \<and> erase s = erase t)"
  by (simp add: sim_def)

lemma sim_leave: "sim (leave tg p x) (leave tg q x)"
  by (simp add: sim_def leave_def)

lemma enter_eq: "erase s = erase t \<Longrightarrow> enter s = enter t"
  by (simp add: enter_erase)

lemma erase_exec:
  "\<forall>t. erase s = erase t \<longrightarrow> sim (exec e fns n c s) (exec e fns n c t)"
  "\<forall>t. erase s = erase t \<longrightarrow> sim (getter_read e fns n g s) (getter_read e fns n g t)"
  "\<forall>t. erase s = erase t \<longrightarrow>
     sim (withCommit e fns n m key payload s) (withCommit e fns n m key payload t)"
  "\<forall>t. erase s = erase t \<longrightarrow> sim (commit e fns n ty0 p0 s) (commit e fns n ty0 p0 t)"
  "\<forall>t. erase s = erase t \<longrightarrow> sim (dispatch e fns n ty0 p0 s) (dispatch e fns n ty0 p0 t)"
  "\<forall>t. erase s = erase t \<longrightarrow> sim (notify e fns n subs ty pl s) (notify e fns n subs ty pl t)"
proof (induction e fns n c s and e fns n g s and e fns n m key payload s and e fns n ty0 p0 s
    and e fns n ty0 p0 s and e fns n subs ty pl s
    rule: exec_getter_read_withCommit_commit_dispatch_notify.induct)
  case (4 e fns n path k s)
  show ?case
  proof (intro allI impI)
    fix t assume a: "erase s = erase t"
    obtain r s1 where x: "read_state path s = (r, s1)" by (cases "read_state path s")
    obtain r' t1 where y: "read_state path t = (r', t1)" by (cases "read_state path t")
    from erase_read_state [OF a, of path] x y have rr: "r' = r" and e1: "erase s1 = erase t1"
      by simp_all
    show "sim (exec e fns (Suc n) (GetState path k) s) (exec e fns (Suc n) (GetState path k) t)"
    proof (cases r)
      case (Val v)
      from "4.IH" [OF x [symmetric] Val] e1 have "sim (exec e fns n (k v) s1) (exec e fns n (k v) t1)"
        by blast
      with x y rr Val show ?thesis by simp
    qed (use x y rr e1 in \<open>simp_all add: sim_pair\<close>)
  qed
next
  case (5 e fns n path newVal c s)
  show ?case
  proof (intro allI impI)
    fix t assume a: "erase s = erase t"
    obtain r s1 where x: "write_state e path newVal s = (r, s1)"
      by (cases "write_state e path newVal s")
    obtain r' t1 where y: "write_state e path newVal t = (r', t1)"
      by (cases "write_state e path newVal t")
    from erase_write_state [OF a, of e path newVal] x y
    have rr: "r' = r" and e1: "erase s1 = erase t1" by simp_all
    show "sim (exec e fns (Suc n) (SetState path newVal c) s)
              (exec e fns (Suc n) (SetState path newVal c) t)"
    proof (cases r)
      case (Val v)
      from "5.IH" [OF x [symmetric] Val] e1 have "sim (exec e fns n c s1) (exec e fns n c t1)"
        by blast
      with x y rr Val show ?thesis by simp
    qed (use x y rr e1 in \<open>simp_all add: sim_pair\<close>)
  qed
next
  case (6 e fns n g k s)
  show ?case
  proof (intro allI impI)
    fix t assume a: "erase s = erase t"
    obtain r s1 where x: "getter_read e fns n g s = (r, s1)" by (cases "getter_read e fns n g s")
    obtain r' t1 where y: "getter_read e fns n g t = (r', t1)" by (cases "getter_read e fns n g t")
    from "6.IH"(1) a x y have rr: "r' = r" and e1: "erase s1 = erase t1"
      by (auto simp: sim_pair)
    show "sim (exec e fns (Suc n) (GetGetter g k) s) (exec e fns (Suc n) (GetGetter g k) t)"
    proof (cases r)
      case (Val v)
      from "6.IH"(2) [OF x [symmetric] Val] e1
      have "sim (exec e fns n (k v) s1) (exec e fns n (k v) t1)" by blast
      with x y rr Val show ?thesis by simp
    qed (use x y rr e1 in \<open>simp_all add: sim_pair\<close>)
  qed
next
  case (7 e fns n tt p c s)
  show ?case
  proof (intro allI impI)
    fix t assume a: "erase s = erase t"
    obtain r s1 where x: "commit e fns n tt p s = (r, s1)" by (cases "commit e fns n tt p s")
    obtain r' t1 where y: "commit e fns n tt p t = (r', t1)" by (cases "commit e fns n tt p t")
    from "7.IH"(1) a x y have rr: "r' = r" and e1: "erase s1 = erase t1"
      by (auto simp: sim_pair)
    show "sim (exec e fns (Suc n) (Commit tt p c) s) (exec e fns (Suc n) (Commit tt p c) t)"
    proof (cases r)
      case (Val v)
      from "7.IH"(2) [OF x [symmetric] Val] e1
      have "sim (exec e fns n c s1) (exec e fns n c t1)" by blast
      with x y rr Val show ?thesis by simp
    qed (use x y rr e1 in \<open>simp_all add: sim_pair\<close>)
  qed
next
  case (8 e fns n tt p c s)
  show ?case
  proof (intro allI impI)
    fix t assume a: "erase s = erase t"
    obtain r s1 where x: "dispatch e fns n tt p s = (r, s1)" by (cases "dispatch e fns n tt p s")
    obtain r' t1 where y: "dispatch e fns n tt p t = (r', t1)" by (cases "dispatch e fns n tt p t")
    from "8.IH"(1) a x y have rr: "r' = r" and e1: "erase s1 = erase t1"
      by (auto simp: sim_pair)
    show "sim (exec e fns (Suc n) (Dispatch tt p c) s) (exec e fns (Suc n) (Dispatch tt p c) t)"
    proof (cases r)
      case (Val v)
      from "8.IH"(2) [OF x [symmetric] Val] e1
      have "sim (exec e fns n c s1) (exec e fns n c t1)" by blast
      with x y rr Val show ?thesis by simp
    qed (use x y rr e1 in \<open>simp_all add: sim_pair\<close>)
  qed
next
  case (9 e fns n fn c s)
  show ?case
  proof (intro allI impI)
    fix t assume a: "erase s = erase t"
    have "erase (s\<lparr>subscribers := set_add fn (subscribers s)\<rparr>) =
          erase (t\<lparr>subscribers := set_add fn (subscribers t)\<rparr>)"
      by (simp add: a erase_eqD(9) [OF a])
    with "9.IH" show "sim (exec e fns (Suc n) (Subscribe fn c) s) (exec e fns (Suc n) (Subscribe fn c) t)"
      by simp
  qed
next
  case (10 e fns n fn c s)
  show ?case
  proof (intro allI impI)
    fix t assume a: "erase s = erase t"
    have "erase (s\<lparr>subscribers := set_delete fn (subscribers s)\<rparr>) =
          erase (t\<lparr>subscribers := set_delete fn (subscribers t)\<rparr>)"
      by (simp add: a erase_eqD(9) [OF a])
    with "10.IH" show "sim (exec e fns (Suc n) (Unsubscribe fn c) s)
                           (exec e fns (Suc n) (Unsubscribe fn c) t)"
      by simp
  qed
next
  case (11 e fns n k s)
  show ?case
  proof (intro allI impI)
    fix t assume a: "erase s = erase t"
    have i: "isCommitting s = isCommitting t" by (rule erase_eqD(6) [OF a])
    have "erase (s\<lparr>calls := calls s @ [Call (GuardRead (isCommitting s)) []]\<rparr>) =
          erase (t\<lparr>calls := calls t @ [Call (GuardRead (isCommitting t)) []]\<rparr>)"
      by (simp add: a)
    with "11.IH" i show "sim (exec e fns (Suc n) (GetGuard k) s) (exec e fns (Suc n) (GetGuard k) t)"
      by simp
  qed
next
  case (12 e fns n g s)
  show ?case
  proof (intro allI impI)
    fix t assume a: "erase s = erase t"
    have gg: "getters s = getters t" by (rule erase_eqD(2) [OF a])
    note en = enter_eq [OF a]
    show "sim (getter_read e fns n g s) (getter_read e fns n g t)"
    proof (cases "registry_get (getters t) g")
      case (Inherited v)
      then show ?thesis by (simp add: getter_read.simps gg sim_pair a)
    next
      case (Own ge)
      show ?thesis
      proof (cases "isDirty ge")
        case False
        with Own show ?thesis by (simp add: getter_read.simps gg sim_pair a)
      next
        case True
        obtain r s1 where x: "exec e fns n (handler ge) (enter t) = (r, s1)"
          by (cases "exec e fns n (handler ge) (enter t)")
        show ?thesis
          by (cases r) (simp_all add: getter_read.simps gg Own True en x leave_def sim_pair)
      qed
    qed
  qed
next
  case (13 e fns n m key payload s)
  show ?case
  proof (intro allI impI)
    fix t assume a: "erase s = erase t"
    have i: "isCommitting s = isCommitting t" by (rule erase_eqD(6) [OF a])
    have en: "enter (s\<lparr>isCommitting := True\<rparr>) = enter (t\<lparr>isCommitting := True\<rparr>)"
      by (rule enter_eq) (simp add: a)
    show "sim (withCommit e fns n m key payload s) (withCommit e fns n m key payload t)"
    proof (cases m)
      case (Inherited v)
      then show ?thesis
        by (cases "call_inherited v ''mutation''") (simp_all add: withCommit.simps sim_pair a i)
    next
      case (Own h)
      obtain r s1 where x: "exec e fns n (h payload) (enter (t\<lparr>isCommitting := True\<rparr>)) = (r, s1)"
        by (cases "exec e fns n (h payload) (enter (t\<lparr>isCommitting := True\<rparr>))")
      show ?thesis
        by (cases r) (simp_all add: withCommit.simps Own en x leave_def sim_pair i)
    qed
  qed
next
  case (14 e fns n type0 payload0 s)
  show ?case
  proof (intro allI impI)
    fix t assume a: "erase s = erase t"
    have mm: "mutations s = mutations t" by (rule erase_eqD(4) [OF a])
    show "sim (commit e fns n type0 payload0 s) (commit e fns n type0 payload0 t)"
    proof (cases "toObjectStyle e type0 payload0")
      case (Inl x)
      then show ?thesis by (simp add: commit.simps sim_pair a)
    next
      case (Inr tp)
      obtain type payload where tp: "tp = (type, payload)" by (cases tp)
      show ?thesis
      proof (cases "to_property_key type")
        case None
        with Inr tp show ?thesis by (simp add: commit.simps sim_pair a)
      next
        case (Some key)
        obtain r s1 where x:
          "withCommit e fns n (registry_get (mutations s) key) key payload s = (r, s1)"
          by (cases "withCommit e fns n (registry_get (mutations s) key) key payload s")
        obtain r' t1 where y:
          "withCommit e fns n (registry_get (mutations s) key) key payload t = (r', t1)"
          by (cases "withCommit e fns n (registry_get (mutations s) key) key payload t")
        from "14.IH"(1) [OF Inr tp [symmetric] Some] a x y
        have rr: "r' = r" and e1: "erase s1 = erase t1" by (auto simp: sim_pair)
        have su: "subscribers s1 = subscribers t1" by (rule erase_eqD(9) [OF e1])
        show ?thesis
        proof (cases r)
          case (Val u)
          from "14.IH"(2) [OF Inr tp [symmetric] Some x [symmetric] Val] e1
          have "sim (notify e fns n (setFromForeachable (subscribers s1)) type payload s1)
                    (notify e fns n (setFromForeachable (subscribers s1)) type payload t1)"
            by blast
          with Inr tp Some x y rr Val su mm show ?thesis by (simp add: commit.simps)
        qed (use Inr tp Some x y rr e1 mm in \<open>simp_all add: commit.simps sim_pair\<close>)
      qed
    qed
  qed
next
  case (15 e fns n type0 payload0 s)
  show ?case
  proof (intro allI impI)
    fix t assume a: "erase s = erase t"
    have aa: "actions s = actions t" by (rule erase_eqD(3) [OF a])
    note en = enter_eq [OF a]
    show "sim (dispatch e fns n type0 payload0 s) (dispatch e fns n type0 payload0 t)"
    proof (cases "toObjectStyle e type0 payload0")
      case (Inl x)
      then show ?thesis by (simp add: dispatch.simps sim_pair a)
    next
      case (Inr tp)
      obtain type payload where tp: "tp = (type, payload)" by (cases tp)
      show ?thesis
      proof (cases "to_property_key type")
        case None
        with Inr tp show ?thesis by (simp add: dispatch.simps sim_pair a)
      next
        case (Some key)
        show ?thesis
        proof (cases "registry_get (actions t) key")
          case (Inherited v)
          with Inr tp Some show ?thesis by (simp add: dispatch.simps sim_pair a aa)
        next
          case (Own h)
          obtain r s1 where x: "exec e fns n (h payload) (enter t) = (r, s1)"
            by (cases "exec e fns n (h payload) (enter t)")
          show ?thesis
            by (cases r)
               (simp_all add: dispatch.simps Inr tp Some aa Own en x leave_def sim_pair)
        qed
      qed
    qed
  qed
next
  case (17 e fns n sub subs type payload s)
  show ?case
  proof (intro allI impI)
    fix t assume a: "erase s = erase t"
    note en = enter_eq [OF a]
    obtain r s1 where x: "leave (SubscriberFn sub type payload) (calls s)
        (exec e fns n (fns sub type payload) (enter s)) = (r, s1)"
      by (cases "leave (SubscriberFn sub type payload) (calls s)
                   (exec e fns n (fns sub type payload) (enter s))")
    obtain r' t1 where y: "leave (SubscriberFn sub type payload) (calls t)
        (exec e fns n (fns sub type payload) (enter s)) = (r', t1)"
      by (cases "leave (SubscriberFn sub type payload) (calls t)
                   (exec e fns n (fns sub type payload) (enter s))")
    from sim_leave [of "SubscriberFn sub type payload" "calls s"
        "exec e fns n (fns sub type payload) (enter s)" "calls t"] x y
    have rr: "r' = r" and e1: "erase s1 = erase t1" by (simp_all add: sim_pair)
    show "sim (notify e fns n (sub # subs) type payload s)
              (notify e fns n (sub # subs) type payload t)"
    proof (cases r)
      case (Val u)
      from "17.IH"(2) [OF x [symmetric] Val] e1
      have "sim (notify e fns n subs type payload s1) (notify e fns n subs type payload t1)"
        by blast
      with x y rr Val en show ?thesis by simp
    qed (use x y rr e1 en in \<open>simp_all add: sim_pair\<close>)
  qed
qed (simp_all add: sim_pair)

subsection \<open>The two call styles\<close>

lemma resolve_plain: "\<not> isPayload t \<Longrightarrow> resolve t p = (t, p)"
  by (simp add: resolve_def)

lemma isPayload_string [simp]: "\<not> isPayload (VStr x)"
  by (simp add: isPayload_def isObject_def)

lemma toObjectStyle_resolved:
  "resolve t0 p0 = (t, p) \<Longrightarrow> \<not> isPayload t \<Longrightarrow> toObjectStyle e t0 p0 = toObjectStyle e t p"
  by (simp add: toObjectStyle_def resolve_plain)

lemma commit_resolved:
  "resolve t0 p0 = (t, p) \<Longrightarrow> \<not> isPayload t \<Longrightarrow> commit e fns n t0 p0 s = commit e fns n t p s"
  by (simp add: commit.simps toObjectStyle_resolved [of t0 p0 t p])

lemma dispatch_resolved:
  "resolve t0 p0 = (t, p) \<Longrightarrow> \<not> isPayload t \<Longrightarrow>
   dispatch e fns n t0 p0 s = dispatch e fns n t p s"
  by (simp add: dispatch.simps toObjectStyle_resolved [of t0 p0 t p])

lemma notify_payload_cong:
  "\<forall>fn. fns fn ty p = fns fn ty p' \<Longrightarrow> erase s = erase t \<Longrightarrow>
   sim (notify e fns n subs ty p s) (notify e fns n subs ty p' t)"
proof (induction subs arbitrary: s t)
  case Nil
  then show ?case by (simp add: sim_pair)
next
  case (Cons sub subs)
  note en = enter_eq [OF Cons.prems(2)]
  from Cons.prems(1) have f: "fns sub ty p' = fns sub ty p" by simp
  obtain r s1 where x: "exec e fns n (fns sub ty p) (enter t) = (r, s1)"
    by (cases "exec e fns n (fns sub ty p) (enter t)")
  show ?case
  proof (cases r)
    case (Val u)
    have "sim (notify e fns n subs ty p (s1\<lparr>calls := calls s @ [Call (SubscriberFn sub ty p) (calls s1)]\<rparr>))
              (notify e fns n subs ty p' (s1\<lparr>calls := calls t @ [Call (SubscriberFn sub ty p') (calls s1)]\<rparr>))"
      by (rule Cons.IH [OF Cons.prems(1)]) simp
    with Val x en f show ?thesis by (simp add: leave_def)
  qed (use x en f in \<open>simp_all add: leave_def sim_pair\<close>)
qed

lemma commit_payload_cong:
  assumes h: "map_of (mutations s) key = Some h" and hp: "h p = h p'"
    and f: "\<forall>fn. fns fn (VStr key) p = fns fn (VStr key) p'"
  shows "sim (commit e fns n (VStr key) p s) (commit e fns n (VStr key) p' s)"
proof -
  have t: "toObjectStyle e (VStr key) q = Inr (VStr key, q)" for q
    by (simp add: toObjectStyle_def resolve_plain)
  have r: "registry_get (mutations s) key = Own h" using h by (simp add: registry_get_def)
  obtain r0 s1 where x: "exec e fns n (h p) (enter (s\<lparr>isCommitting := True\<rparr>)) = (r0, s1)"
    by (cases "exec e fns n (h p) (enter (s\<lparr>isCommitting := True\<rparr>))")
  show ?thesis
  proof (cases r0)
    case (Val u)
    let ?a = "s1\<lparr>calls := calls s @ [Call (MutationFn key p) (calls s1)],
                 isCommitting := isCommitting s\<rparr>"
    let ?b = "s1\<lparr>calls := calls s @ [Call (MutationFn key p') (calls s1)],
                 isCommitting := isCommitting s\<rparr>"
    have "sim (notify e fns n (setFromForeachable (subscribers s1)) (VStr key) p ?a)
              (notify e fns n (setFromForeachable (subscribers s1)) (VStr key) p' ?b)"
      using f by (intro notify_payload_cong) simp_all
    with Val x show ?thesis
      by (simp add: commit.simps t r withCommit.simps hp [symmetric] leave_def)
  qed (use x in \<open>simp_all add: commit.simps t r withCommit.simps hp [symmetric] leave_def sim_pair\<close>)
qed

subsection \<open>The constructor\<close>

lemma forEachEntry_invariant:
  assumes step: "\<And>k v s. P s \<Longrightarrow> P (snd (f k v s))"
  shows "P s \<Longrightarrow> P (snd (forEachEntry xs f s))"
proof (induction xs arbitrary: s)
  case Nil
  then show ?case by simp
next
  case (Cons kv xs)
  obtain k v where kv: "kv = (k, v)" by (cases kv)
  obtain r s1 where x: "f k v s = (r, s1)" by (cases "f k v s")
  from step [OF Cons.prems, of k v] x have p: "P s1" by simp
  show ?case
    by (cases r) (use kv x p Cons.IH [OF p] in simp_all)
qed

lemma wf_registerGetter:
  assumes w: "wf_state (state s)"
  shows "wf_state (state (snd (registerGetter e fns n ty fn s)))"
proof -
  obtain r s1 where x: "getter_read e fns n ty s = (r, s1)" by (cases "getter_read e fns n ty s")
  from wf_exec(2) [OF w, of e fns n ty] x have w1: "wf_state (state s1)" by simp
  let ?s2 = "s1\<lparr>pendingDirty := False, runningReaction := Some ty\<rparr>"
  obtain r3 s3 where y: "exec e fns n fn (enter ?s2) = (r3, s3)"
    by (cases "exec e fns n fn (enter ?s2)")
  from wf_exec(1) [of "enter ?s2" e fns n fn] w1 y have w3: "wf_state (state s3)" by simp
  show ?thesis
    by (cases r; cases r3)
       (use x y w1 w3 in \<open>auto simp: registerGetter_def leave_def Let_def split: option.splits\<close>)
qed

lemma wf_new_Store: "wf_state (state (snd (new_Store e fns n opts)))"
proof -
  let ?s0 = "\<lparr>state = initState (opt_state opts), getters = [], actions = [], mutations = [],
                strict = (case opt_strict opts of None \<Rightarrow> True | Some b \<Rightarrow> b),
                isCommitting = False, runningReaction = None, pendingDirty = False,
                subscribers = [], calls = []\<rparr>"
  let ?P = "\<lambda>s. wf_state (state s)"
  have 0: "?P ?s0" by (simp add: wf_initState)
  obtain r1 s1 where a: "forEachEntry (opt_getters opts) (registerGetter e fns n) ?s0 = (r1, s1)"
    by (cases "forEachEntry (opt_getters opts) (registerGetter e fns n) ?s0")
  have 1: "?P s1"
    using forEachEntry_invariant [of ?P "registerGetter e fns n" ?s0 "opt_getters opts"]
      wf_registerGetter 0 a by simp
  obtain r2 s2 where b: "forEachEntry (opt_actions opts) (registerAction e) s1 = (r2, s2)"
    by (cases "forEachEntry (opt_actions opts) (registerAction e) s1")
  have 2: "?P s2"
    using forEachEntry_invariant [of ?P "registerAction e" s1 "opt_actions opts"] 1 b
    by (simp add: registerAction_def)
  have 3: "?P (snd (forEachEntry (opt_mutations opts) (registerMutation e) s2))"
    using forEachEntry_invariant [of ?P "registerMutation e" s2 "opt_mutations opts"] 2
    by (simp add: registerMutation_def)
  show ?thesis
    by (cases r1; cases r2) (use a b 1 2 3 in \<open>simp_all add: new_Store_def Let_def\<close>)
qed

subsection \<open>The example stores\<close>

lemma test_store_facts:
  "state test_store = [(''a'', Accessor (Plain (VNum 1)) [])]"
  "strict test_store" "\<not> isCommitting test_store" "calls test_store = []"
  "subscribers test_store = []" "getters test_store = []"
  "state lax_store = [(''a'', Accessor (Plain (VNum 1)) [])]"
  "\<not> strict lax_store"
  by (simp_all add: test_store_def lax_store_def new_Store_def test_options_def
      registerAction_def registerMutation_def registry_get_def proto_get_def
      Object_prototype_keys_def NOT_PRODUCTION_def isObject_def)

lemma test_store_lookup:
  "map_of (mutations test_store) ''missing'' = None"
  "map_of (actions test_store) ''missing'' = None"
  "map_of (mutations test_store) ''toString'' = None"
  "map_of (actions test_store) ''toString'' = None"
  "map_of (mutations test_store) ''add'' = Some add_mutation"
  "map_of (mutations test_store) [] = Some add_mutation"
  by (simp_all add: test_store_def new_Store_def test_options_def
      registerAction_def registerMutation_def registry_get_def proto_get_def
      Object_prototype_keys_def NOT_PRODUCTION_def isObject_def)

lemma demo_store_facts:
  "state demo_store =
     [(''a'', Accessor (Plain (VNum 0)) [''g'']), (''b'', Accessor (Plain (VNum 1)) [])]"
  "strict demo_store" "\<not> isCommitting demo_store"
  "calls demo_store = [Call (GetterFn ''g'') []]"
  "subscribers demo_store = []"
  by code_simp+

lemma demo_store_lookup:
  "map_of (actions demo_store) ''plain'' = Some plain_action"
  "map_of (actions demo_store) ''thenable'' = Some thenable_action"
  "map_of (actions demo_store) ''onlyThen'' = Some only_then_action"
  "map_of (actions demo_store) ''throwing'' = Some throwing_action"
  by (simp_all add: demo_store_def new_Store_def demo_options_def registerGetter_def
      getter_read.simps registerAction_def registerMutation_def registry_get_def proto_get_def
      Object_prototype_keys_def NOT_PRODUCTION_def isObject_def g_getter_def enter_def leave_def
      read_state_def track_def set_add_def positive_def eval_nat_numeral)

subsection \<open>The check of the type, names without an entry\<close>

lemma resolve_string: "typeof t = ''string'' \<Longrightarrow> resolve t p = (t, p)"
  by (cases t) (auto simp: resolve_def isPayload_def isObject_def split: if_splits)

lemma toObjectStyle_reject:
  "NOT_PRODUCTION e \<Longrightarrow> typeof (fst (resolve type0 payload0)) \<noteq> ''string'' \<Longrightarrow>
   toObjectStyle e type0 payload0 =
     Inl (TypeError (''expects string as the type, but found '' @ typeof (fst (resolve type0 payload0)) @ ''.''))"
  by (cases "resolve type0 payload0") (simp add: toObjectStyle_def)

lemma toObjectStyle_production:
  "\<not> NOT_PRODUCTION e \<Longrightarrow> toObjectStyle e type0 payload0 = Inr (resolve type0 payload0)"
  by (cases "resolve type0 payload0") (simp add: toObjectStyle_def)

lemma registry_get_absent:
  "key \<notin> set Object_prototype_keys \<Longrightarrow> map_of reg key = None \<Longrightarrow>
   registry_get reg key = Inherited VUndefined"
  by (auto simp: registry_get_def proto_get_def Object_prototype_keys_def)

subsection \<open>The flags strict and isCommitting\<close>

text \<open>
  No run changes \<^verbatim>\<open>strict\<close>. While \<^verbatim>\<open>isCommitting\<close> is true no run makes it false, so
  every read of it gives true; \<^verbatim>\<open>_withCommit\<close> runs the handler once and, when the
  handler returns, restores the value that \<^verbatim>\<open>isCommitting\<close> had. When the handler does
  not return, \<^verbatim>\<open>isCommitting\<close> is left true.
\<close>

lemma strict_exec:
  "strict (snd (exec e fns n c s)) = strict s"
  "strict (snd (getter_read e fns n g s)) = strict s"
  "strict (snd (commit e fns n t p s)) = strict s"
  "strict (snd (dispatch e fns n t p s)) = strict s"
proof -
  have r: "strict (snd (read_state p s)) = strict s" for p s
    by (cases "state_get (runningReaction s) (state s) p") (simp add: read_state_def)
  have w: "strict (snd (write_state e p v s)) = strict s" for e p v s
    by (cases "state_set (blocked e s) (runningReaction s) (state s) p v";
        cases "fst (state_set (blocked e s) (runningReaction s) (state s) p v)")
       (simp_all add: write_state_def)
  note inv = exec_invariant [where P = "\<lambda>x. strict x = strict s"]
  show "strict (snd (exec e fns n c s)) = strict s"
    by (rule inv(1)) (simp_all add: r w)
  show "strict (snd (getter_read e fns n g s)) = strict s"
    by (rule inv(2)) (simp_all add: r w)
  show "strict (snd (commit e fns n t p s)) = strict s"
    by (rule inv(4)) (simp_all add: r w)
  show "strict (snd (dispatch e fns n t p s)) = strict s"
    by (rule inv(5)) (simp_all add: r w)
qed

lemma strict_registerGetter: "strict (snd (registerGetter e fns n ty fn s)) = strict s"
proof -
  obtain r s1 where x: "getter_read e fns n ty s = (r, s1)" by (cases "getter_read e fns n ty s")
  from strict_exec(2) [of e fns n ty s] x have 1: "strict s1 = strict s" by simp
  let ?s2 = "s1\<lparr>pendingDirty := False, runningReaction := Some ty\<rparr>"
  obtain r3 s3 where y: "exec e fns n fn (enter ?s2) = (r3, s3)"
    by (cases "exec e fns n fn (enter ?s2)")
  from strict_exec(1) [of e fns n fn "enter ?s2"] y have 3: "strict s3 = strict s1" by simp
  show ?thesis
    by (cases r; cases r3)
       (use x y 1 3 in \<open>auto simp: registerGetter_def leave_def Let_def split: option.splits\<close>)
qed

lemma strict_new_Store:
  "strict (snd (new_Store e fns n opts)) = (opt_strict opts \<noteq> Some False)"
proof -
  let ?b = "opt_strict opts \<noteq> Some False"
  let ?s0 = "\<lparr>state = initState (opt_state opts), getters = [], actions = [], mutations = [],
                strict = (case opt_strict opts of None \<Rightarrow> True | Some b \<Rightarrow> b),
                isCommitting = False, runningReaction = None, pendingDirty = False,
                subscribers = [], calls = []\<rparr>"
  let ?P = "\<lambda>s. strict s = ?b"
  have 0: "?P ?s0" by (cases "opt_strict opts") auto
  obtain r1 s1 where a: "forEachEntry (opt_getters opts) (registerGetter e fns n) ?s0 = (r1, s1)"
    by (cases "forEachEntry (opt_getters opts) (registerGetter e fns n) ?s0")
  have 1: "?P s1"
    using forEachEntry_invariant [of ?P "registerGetter e fns n" ?s0 "opt_getters opts"] 0 a
    by (simp add: strict_registerGetter)
  obtain r2 s2 where b: "forEachEntry (opt_actions opts) (registerAction e) s1 = (r2, s2)"
    by (cases "forEachEntry (opt_actions opts) (registerAction e) s1")
  have 2: "?P s2"
    using forEachEntry_invariant [of ?P "registerAction e" s1 "opt_actions opts"] 1 b
    by (simp add: registerAction_def)
  have 3: "?P (snd (forEachEntry (opt_mutations opts) (registerMutation e) s2))"
    using forEachEntry_invariant [of ?P "registerMutation e" s2 "opt_mutations opts"] 2
    by (simp add: registerMutation_def)
  show ?thesis
    by (cases r1; cases r2) (use a b 1 2 3 in \<open>simp_all add: new_Store_def Let_def\<close>)
qed

lemma guarded_read_state: "guarded s \<Longrightarrow> guarded (snd (read_state p s))"
  by (cases "state_get (runningReaction s) (state s) p") (simp add: read_state_def guarded_def)

lemma guarded_write_state: "guarded s \<Longrightarrow> guarded (snd (write_state e p v s))"
  by (cases "state_set (blocked e s) (runningReaction s) (state s) p v";
      cases "fst (state_set (blocked e s) (runningReaction s) (state s) p v)")
     (auto simp add: write_state_def guarded_def)

lemma guarded_exec: "guarded s \<Longrightarrow> guarded (snd (exec e fns n c s))"
proof (rule exec_invariant(1) [where P = guarded])
  show "guarded (snd (leave t (calls s) x))" if "guarded s" "guarded (snd x)" "\<forall>b. t \<noteq> GuardRead b"
    for s x t
    using that by (cases t) (auto simp: guarded_def leave_def)
qed (erule guarded_read_state guarded_write_state | simp add: guarded_def enter_def)+

lemma withCommit_returns:
  assumes "withCommit e fns n (Own h) key payload s = (r, s')"
  shows "\<exists>inner. calls s' = calls s @ [Call (MutationFn key payload) inner] \<and>
           (\<forall>c \<in> set inner. reads_true c) \<and>
           (if r = Val VUndefined then isCommitting s' = isCommitting s
            else isCommitting s' \<and> (\<forall>v. r \<noteq> Val v))"
proof -
  let ?s1 = "s\<lparr>isCommitting := True\<rparr>"
  obtain r0 s0 where x: "exec e fns n (h payload) (enter ?s1) = (r0, s0)"
    by (cases "exec e fns n (h payload) (enter ?s1)")
  have "guarded (enter ?s1)" by (simp add: guarded_def)
  from guarded_exec [OF this, of e fns n "h payload"] x
  have g: "isCommitting s0" "\<forall>c \<in> set (calls s0). reads_true c"
    by (simp_all add: guarded_def)
  show ?thesis
    by (cases r0) (use assms x g in \<open>auto simp: withCommit.simps leave_def\<close>)
qed

subsection \<open>Reading a getter\<close>

text \<open>
  A getter that is not dirty gives its cached value and nothing runs; a dirty one
  runs its function once, caches the result and is clean again. In the variant
  without dependency sets every read runs the function.
\<close>

lemma getter_read_cached:
  "map_of (getters s) g = Some ge \<Longrightarrow> \<not> isDirty ge \<Longrightarrow>
   getter_read e fns n g s = (Val (cached ge), s)"
  by (simp add: getter_read.simps registry_get_def)

lemma getter_read_recomputes:
  assumes "map_of (getters s) g = Some ge" and "isDirty ge"
    and "exec e fns n (handler ge) (enter s) = (Val v, s')"
  shows "fst (getter_read e fns n g s) = Val v"
    and "calls (snd (getter_read e fns n g s)) = calls s @ [Call (GetterFn g) (calls s')]"
    and "map_of (getters s') g = Some ge' \<Longrightarrow>
         map_of (getters (snd (getter_read e fns n g s))) g =
           Some (ge'\<lparr>cached := v, isDirty := False\<rparr>)"
  using assms by (simp_all add: getter_read.simps registry_get_def leave_def map_of_map_entry)

lemma getter_read_uncached_runs:
  "calls (snd (getter_read_uncached e fns n g fn s)) =
     calls s @ [Call (GetterFn g) (calls (snd (exec e fns n fn (enter s))))]"
  by (simp add: getter_read_uncached_def)

subsection \<open>What an action returns\<close>

text \<open>
  The test \<^verbatim>\<open>isPromise\<close> of the code holds exactly of the awaitable values, and
  \<^verbatim>\<open>Promise.resolve\<close> of a value that does not pass it makes a promise that is
  fulfilled with the value, or one that follows it when it has a function \<^verbatim>\<open>then\<close>.
\<close>

lemma callable_typeof: "callable v = (typeof v = ''function'')"
  by (cases v) auto

lemma isPromise_awaitable: "isPromise v = awaitable v"
  by (cases v)
    (auto simp: isPromise_def isObject_def isFunction_def callable_typeof proto_get_def
      Object_prototype_keys_def split: option.splits)

lemma Promise_resolve_fulfilled:
  "\<not> awaitable res \<Longrightarrow> \<not> has_then res \<Longrightarrow> Promise_resolve res = VPromise (Fulfilled res)"
  by (cases res)
    (auto simp: Promise_resolve_def isObject_def isFunction_def callable_typeof proto_get_def
      Object_prototype_keys_def split: option.splits)

lemma Promise_resolve_following:
  "\<not> awaitable res \<Longrightarrow> has_then res \<Longrightarrow> Promise_resolve res = VPromise (Following res)"
  by (cases res)
    (auto simp: Promise_resolve_def isObject_def isFunction_def callable_typeof
      split: option.splits)

lemma dispatch_registered:
  "toObjectStyle e type0 payload0 = Inr (VStr a, p) \<Longrightarrow> map_of (actions s) a = Some h \<Longrightarrow>
   exec e fns n (h p) (enter s) = (r, s') \<Longrightarrow>
   fst (dispatch e fns n type0 payload0 s) =
     (case r of Val res \<Rightarrow> Val (if isPromise res then res else Promise_resolve res) | _ \<Rightarrow> r)"
  by (cases r) (simp_all add: dispatch.simps registry_get_def leave_def)

section \<open>Properties of the store\<close>

text \<open>
  Claim C1 (memoization of a getter). The claim holds for the properties that the
  getter's function read when it was registered: only then is \<^verbatim>\<open>runningReaction\<close> set.
  When \<^verbatim>\<open>get()\<close> runs the function again after an invalidation, the reads register
  nothing. On the second example store, \<^verbatim>\<open>g: s => s.a > 0 ? s.b : 0\<close> is registered with
  \<^verbatim>\<open>a = 0\<close> and reads only \<^verbatim>\<open>a\<close>. After \<^verbatim>\<open>commit("setA", 1)\<close> the next read of
  \<^verbatim>\<open>getters.g\<close> runs the function once more, which reads \<^verbatim>\<open>a\<close> and \<^verbatim>\<open>b\<close> and returns 1;
  the set \<^verbatim>\<open>deps\<close> of \<^verbatim>\<open>b\<close> stays empty. Then \<^verbatim>\<open>commit("setB", 2)\<close> changes \<^verbatim>\<open>b\<close>, and
  the next read of \<^verbatim>\<open>getters.g\<close> returns the cached 1 without running the function,
  which would now return 2.
\<close>

theorem getter_stale_after_recompute:
  "fst (getter_read (Some ''test'') demo_callbacks 10 ''g'' demo_store) = Val (VNum 0) \<and>
   state demo_after_setA =
     [(''a'', Accessor (Plain (VNum 1)) [''g'']), (''b'', Accessor (Plain (VNum 1)) [])] \<and>
   fst (getter_read (Some ''test'') demo_callbacks 10 ''g'' demo_after_setA) = Val (VNum 1) \<and>
   map tag_of (calls demo_after_setA) = [GetterFn ''g'', MutationFn ''setA'' (VNum 1)] \<and>
   map tag_of (calls demo_after_read) =
     [GetterFn ''g'', MutationFn ''setA'' (VNum 1), GetterFn ''g''] \<and>
   state demo_after_read =
     [(''a'', Accessor (Plain (VNum 1)) [''g'']), (''b'', Accessor (Plain (VNum 1)) [])] \<and>
   state demo_after_setB =
     [(''a'', Accessor (Plain (VNum 1)) [''g'']), (''b'', Accessor (Plain (VNum 2)) [])] \<and>
   fst (getter_read (Some ''test'') demo_callbacks 10 ''g'' demo_after_setB) = Val (VNum 1) \<and>
   map tag_of (calls (snd (getter_read (Some ''test'') demo_callbacks 10 ''g'' demo_after_setB))) =
     [GetterFn ''g'', MutationFn ''setA'' (VNum 1), GetterFn ''g'', MutationFn ''setB'' (VNum 2)] \<and>
   fst (exec (Some ''test'') demo_callbacks 10 g_getter demo_after_setB) = Val (VNum 2)"
proof (intro conjI)
  show "fst (getter_read (Some ''test'') demo_callbacks 10 ''g'' demo_store) = Val (VNum 0)"
    by code_simp
  show "state demo_after_setA =
     [(''a'', Accessor (Plain (VNum 1)) [''g'']), (''b'', Accessor (Plain (VNum 1)) [])]"
    by code_simp
  show "fst (getter_read (Some ''test'') demo_callbacks 10 ''g'' demo_after_setA) = Val (VNum 1)"
    by code_simp
  show "map tag_of (calls demo_after_setA) = [GetterFn ''g'', MutationFn ''setA'' (VNum 1)]"
    by code_simp
  show "map tag_of (calls demo_after_read) =
     [GetterFn ''g'', MutationFn ''setA'' (VNum 1), GetterFn ''g'']"
    by code_simp
  show "state demo_after_read =
     [(''a'', Accessor (Plain (VNum 1)) [''g'']), (''b'', Accessor (Plain (VNum 1)) [])]"
    by code_simp
  show "state demo_after_setB =
     [(''a'', Accessor (Plain (VNum 1)) [''g'']), (''b'', Accessor (Plain (VNum 2)) [])]"
    by code_simp
  show "fst (getter_read (Some ''test'') demo_callbacks 10 ''g'' demo_after_setB) = Val (VNum 1)"
    by code_simp
  show "map tag_of (calls (snd (getter_read (Some ''test'') demo_callbacks 10 ''g'' demo_after_setB))) =
     [GetterFn ''g'', MutationFn ''setA'' (VNum 1), GetterFn ''g'', MutationFn ''setB'' (VNum 2)]"
    by code_simp
  show "fst (exec (Some ''test'') demo_callbacks 10 g_getter demo_after_setB) = Val (VNum 2)"
    by code_simp
qed

text \<open>
  Claim C2 (names that were never registered), as the code has it. The store makes
  no check of its own: \<^verbatim>\<open>this._mutations[type]\<close> is \<^verbatim>\<open>undefined\<close> for a name that is
  neither registered nor inherited from \<^verbatim>\<open>Object.prototype\<close>, and calling it throws
  the engine's TypeError. So for such a name \<^verbatim>\<open>commit\<close> throws \<^verbatim>\<open>mutation is not a
  function\<close> with no handler and no subscriber called, and \<^verbatim>\<open>dispatch\<close> throws
  \<^verbatim>\<open>action is not a function\<close> with the store unchanged.
\<close>

theorem unknown_name_not_callable:
  "key \<notin> set Object_prototype_keys \<Longrightarrow> toObjectStyle e type0 payload0 = Inr (VStr key, payload) \<Longrightarrow>
     (map_of (mutations s) key = None \<longrightarrow>
        fst (commit e fns n type0 payload0 s) = Exn (TypeError ''mutation is not a function'') \<and>
        calls (snd (commit e fns n type0 payload0 s)) = calls s) \<and>
     (map_of (actions s) key = None \<longrightarrow>
        dispatch e fns n type0 payload0 s = (Exn (TypeError ''action is not a function''), s))"
  by (simp add: commit.simps dispatch.simps withCommit.simps registry_get_absent call_inherited_def)

theorem unknown_name_not_callable_witness:
  "''missing'' \<notin> set Object_prototype_keys \<and>
   map_of (mutations test_store) ''missing'' = None \<and>
   map_of (actions test_store) ''missing'' = None \<and>
   fst (commit (Some ''test'') no_callbacks 10 (VStr ''missing'') (VNum 2) test_store) =
     Exn (TypeError ''mutation is not a function'') \<and>
   calls (snd (commit (Some ''test'') no_callbacks 10 (VStr ''missing'') (VNum 2) test_store)) =
     calls test_store \<and>
   dispatch (Some ''test'') no_callbacks 10 (VStr ''missing'') (VNum 2) test_store =
     (Exn (TypeError ''action is not a function''), test_store)"
  using unknown_name_not_callable [of "''missing''" "Some ''test''" "VStr ''missing''" "VNum 2"
      "VNum 2" test_store no_callbacks 10]
  by (simp add: test_store_lookup Object_prototype_keys_def toObjectStyle_def resolve_def
      isPayload_def isObject_def)

text \<open>
  Against the claim as it is written: \<^verbatim>\<open>toString\<close> was never registered in the store
  of the test suite, yet \<^verbatim>\<open>commit("toString", 2)\<close> returns normally and
  \<^verbatim>\<open>dispatch("toString", 2)\<close> returns the string \<^verbatim>\<open>"[object Undefined]"\<close>; for the name
  \<^verbatim>\<open>missing\<close> the error is the engine's TypeError, raised inside \<^verbatim>\<open>_withCommit\<close>
  after the guard was set.
\<close>

theorem unknown_name_counterexample:
  "map_of (mutations test_store) ''toString'' = None \<and>
   map_of (actions test_store) ''toString'' = None \<and>
   fst (commit (Some ''test'') no_callbacks 10 (VStr ''toString'') (VNum 2) test_store) =
     Val VUndefined \<and>
   fst (dispatch (Some ''test'') no_callbacks 10 (VStr ''toString'') (VNum 2) test_store) =
     Val (VStr ''[object Undefined]'') \<and>
   map_of (mutations test_store) ''missing'' = None \<and>
   fst (commit (Some ''test'') no_callbacks 10 (VStr ''missing'') (VNum 2) test_store) =
     Exn (TypeError ''mutation is not a function'') \<and>
   \<not> isCommitting test_store \<and>
   isCommitting (snd (commit (Some ''test'') no_callbacks 10 (VStr ''missing'') (VNum 2) test_store))"
  by (simp add: test_store_lookup test_store_facts commit.simps dispatch.simps withCommit.simps
      toObjectStyle_def resolve_def isPayload_def isObject_def registry_get_def proto_get_def
      Object_prototype_keys_def call_inherited_def setFromForeachable_def)

text \<open>
  Claim C3 (the write guard). A write to a reactive cell of the state, at the end of
  any property path through nested wrappers: when \<^verbatim>\<open>strict\<close> is true, no mutation is
  running and \<^verbatim>\<open>NOT_PRODUCTION\<close> holds, the setter throws \<^verbatim>\<open>do not mutate store state
  outside mutation handlers\<close>, the cell keeps its value and its dependents, and no
  reaction runs; when \<^verbatim>\<open>strict\<close> is false the write succeeds and the cell holds the
  new value.
\<close>

theorem write_guard:
  "resolves (state s) path (Some (Accessor cur deps)) \<Longrightarrow>
     (strict s \<and> \<not> isCommitting s \<and> NOT_PRODUCTION e \<longrightarrow>
        fst (write_state e path v s) =
          Exn (Error ''do not mutate store state outside mutation handlers'') \<and>
        resolves (state (snd (write_state e path v s))) path (Some (Accessor cur deps)) \<and>
        calls (snd (write_state e path v s)) = calls s \<and>
        getters (snd (write_state e path v s)) = getters s) \<and>
     (\<not> strict s \<longrightarrow>
        fst (write_state e path v s) = Val v \<and>
        resolves (state (snd (write_state e path v s))) path (Some (Accessor (Plain v) deps)))"
proof (intro conjI impI)
  assume c: "resolves (state s) path (Some (Accessor cur deps))"
  {
    assume "strict s \<and> \<not> isCommitting s \<and> NOT_PRODUCTION e"
    then have b: "blocked e s" by (simp add: blocked_def)
    note w = write_state_blocked [OF c b, of v]
      and r = state_set_blocked [OF c, of "runningReaction s" v]
    show "fst (write_state e path v s) =
            Exn (Error ''do not mutate store state outside mutation handlers'')"
      by (simp add: w)
    show "resolves (state (snd (write_state e path v s))) path (Some (Accessor cur deps))"
      using r by (simp add: w)
    show "calls (snd (write_state e path v s)) = calls s" by (simp add: w)
    show "getters (snd (write_state e path v s)) = getters s" by (simp add: w)
  }
  {
    assume "\<not> strict s"
    then have b: "\<not> blocked e s" by (simp add: blocked_def)
    note w = write_state_cell [OF c b, of v]
      and r = state_set_cell [OF c, of "runningReaction s" v]
    show "fst (write_state e path v s) = Val v" by (simp add: w)
    show "resolves (state (snd (write_state e path v s))) path (Some (Accessor (Plain v) deps))"
      using r by (simp add: w)
  }
qed

theorem write_guard_witness:
  "resolves (state test_store) [''a''] (Some (Accessor (Plain (VNum 1)) [])) \<and>
   strict test_store \<and> \<not> isCommitting test_store \<and> NOT_PRODUCTION (Some ''test'') \<and>
   fst (write_state (Some ''test'') [''a''] (VNum 5) test_store) =
     Exn (Error ''do not mutate store state outside mutation handlers'') \<and>
   resolves (state (snd (write_state (Some ''test'') [''a''] (VNum 5) test_store))) [''a'']
     (Some (Accessor (Plain (VNum 1)) [])) \<and>
   \<not> strict lax_store \<and>
   fst (write_state (Some ''test'') [''a''] (VNum 5) lax_store) = Val (VNum 5) \<and>
   resolves (state (snd (write_state (Some ''test'') [''a''] (VNum 5) lax_store))) [''a'']
     (Some (Accessor (Plain (VNum 5)) []))"
  using write_guard [where s = test_store and path = "[''a'']" and cur = "Plain (VNum 1)"
      and deps = "[]" and e = "Some ''test''" and v = "VNum 5"]
    write_guard [where s = lax_store and path = "[''a'']" and cur = "Plain (VNum 1)"
      and deps = "[]" and e = "Some ''test''" and v = "VNum 5"]
  by (simp add: test_store_facts NOT_PRODUCTION_def)

text \<open>
  Claim C4 (the guard around a mutation handler). \<^verbatim>\<open>_withCommit\<close> restores
  \<^verbatim>\<open>isCommitting\<close> by the statement after \<^verbatim>\<open>cb()\<close>, which does not run when the handler
  throws. On the second example store, strict and with the guard false,
  \<^verbatim>\<open>commit("boom")\<close> runs the handler once, the handler throws, and the guard stays
  true: the next assignment to \<^verbatim>\<open>state.a\<close> from outside any mutation succeeds.
  The lemma \<open>withCommit_returns\<close> above has the rest of the claim: the handler
  runs once, every read of the guard during the run gives true, and the guard is
  restored when the handler returns.
\<close>

theorem guard_left_set_by_throw:
  "strict demo_store \<and> \<not> isCommitting demo_store \<and>
   fst (commit (Some ''test'') demo_callbacks 10 (VStr ''boom'') VUndefined demo_store) =
     Exn (UserThrow (VStr ''boom'')) \<and>
   map tag_of (calls demo_after_boom) = [GetterFn ''g'', MutationFn ''boom'' VUndefined] \<and>
   strict demo_after_boom \<and> isCommitting demo_after_boom \<and>
   fst (write_state (Some ''test'') [''a''] (VNum 7) demo_after_boom) = Val (VNum 7)"
proof (intro conjI)
  show "strict demo_store" by code_simp
  show "\<not> isCommitting demo_store" by code_simp
  show "fst (commit (Some ''test'') demo_callbacks 10 (VStr ''boom'') VUndefined demo_store) =
     Exn (UserThrow (VStr ''boom''))"
    by code_simp
  show "map tag_of (calls demo_after_boom) = [GetterFn ''g'', MutationFn ''boom'' VUndefined]"
    by code_simp
  show "strict demo_after_boom" by code_simp
  show "isCommitting demo_after_boom" by code_simp
  show "fst (write_state (Some ''test'') [''a''] (VNum 7) demo_after_boom) = Val (VNum 7)"
    by code_simp
qed

text \<open>
  Claim C5 (the two call styles), as the code has it. \<^verbatim>\<open>toObjectStyle\<close> takes the
  first argument for an object-style payload when it is an object whose \<^verbatim>\<open>type\<close> is
  truthy: then the type is its \<^verbatim>\<open>type\<close> and the payload is the object itself. In every
  other case, a string in particular, the first argument is the type and the second
  the payload. For an object \<open>t0\<close> whose \<^verbatim>\<open>type\<close> is the non-empty string \<open>key\<close>,
  \<^verbatim>\<open>commit(t0)\<close> is \<^verbatim>\<open>commit(key, t0)\<close> and \<^verbatim>\<open>dispatch(t0)\<close> is \<^verbatim>\<open>dispatch(key, t0)\<close>;
  and \<^verbatim>\<open>commit(key, p)\<close> and \<^verbatim>\<open>commit(t0)\<close> have the same result and leave the same
  store when the handler of \<open>key\<close> does the same for \<open>p\<close> and for \<open>t0\<close>, and so do
  the subscribed functions, which receive the payload as it was passed.
\<close>

theorem payload_normalization:
  "(isObject t0 \<and> truthy (get_prop t0 ''type'') \<longrightarrow> resolve t0 p0 = (get_prop t0 ''type'', t0)) \<and>
   (\<not> (isObject t0 \<and> truthy (get_prop t0 ''type'')) \<longrightarrow> resolve t0 p0 = (t0, p0)) \<and>
   (typeof t0 = ''string'' \<longrightarrow> resolve t0 p0 = (t0, p0)) \<and>
   (isObject t0 \<and> get_prop t0 ''type'' = VStr key \<and> key \<noteq> [] \<longrightarrow>
      commit e fns n t0 p0 s = commit e fns n (VStr key) t0 s \<and>
      dispatch e fns n t0 p0 s = dispatch e fns n (VStr key) t0 s \<and>
      (\<forall>h p. map_of (mutations s) key = Some h \<and> h p = h t0 \<and>
             (\<forall>fn. fns fn (VStr key) p = fns fn (VStr key) t0) \<longrightarrow>
         fst (commit e fns n (VStr key) p s) = fst (commit e fns n t0 p0 s) \<and>
         erase (snd (commit e fns n (VStr key) p s)) = erase (snd (commit e fns n t0 p0 s))))"
proof (intro conjI impI allI)
  show "resolve t0 p0 = (get_prop t0 ''type'', t0)" if "isObject t0 \<and> truthy (get_prop t0 ''type'')"
    using that by (simp add: resolve_def isPayload_def)
  show "resolve t0 p0 = (t0, p0)" if "\<not> (isObject t0 \<and> truthy (get_prop t0 ''type''))"
    using that by (auto simp add: resolve_def isPayload_def)
  show "resolve t0 p0 = (t0, p0)" if "typeof t0 = ''string''"
    using that by (simp add: resolve_def isPayload_def isObject_def)
next
  assume a: "isObject t0 \<and> get_prop t0 ''type'' = VStr key \<and> key \<noteq> []"
  then have r: "resolve t0 p0 = (VStr key, t0)" by (simp add: resolve_def isPayload_def)
  show c: "commit e fns n t0 p0 s = commit e fns n (VStr key) t0 s"
    by (rule commit_resolved [OF r]) simp
  show "dispatch e fns n t0 p0 s = dispatch e fns n (VStr key) t0 s"
    by (rule dispatch_resolved [OF r]) simp
  fix h p
  assume b: "map_of (mutations s) key = Some h \<and> h p = h t0 \<and>
             (\<forall>fn. fns fn (VStr key) p = fns fn (VStr key) t0)"
  then have "sim (commit e fns n (VStr key) p s) (commit e fns n (VStr key) t0 s)"
    using commit_payload_cong [of s key h p t0 fns e n] by blast
  then show "fst (commit e fns n (VStr key) p s) = fst (commit e fns n t0 p0 s)"
    and "erase (snd (commit e fns n (VStr key) p s)) = erase (snd (commit e fns n t0 p0 s))"
    by (simp_all add: c sim_def)
qed

theorem payload_normalization_witness:
  "isObject (VObject 3 [(''type'', VStr ''add''), (''amount'', VNum 2)]) \<and>
   truthy (get_prop (VObject 3 [(''type'', VStr ''add''), (''amount'', VNum 2)]) ''type'') \<and>
   resolve (VObject 3 [(''type'', VStr ''add''), (''amount'', VNum 2)]) VUndefined =
     (get_prop (VObject 3 [(''type'', VStr ''add''), (''amount'', VNum 2)]) ''type'',
      VObject 3 [(''type'', VStr ''add''), (''amount'', VNum 2)]) \<and>
   typeof (VStr ''add'') = ''string'' \<and>
   resolve (VStr ''add'') (VNum 2) = (VStr ''add'', VNum 2) \<and>
   map_of (mutations test_store) ''add'' = Some add_mutation \<and>
   add_mutation (VNum 2) = add_mutation (VObject 3 [(''type'', VStr ''add''), (''amount'', VNum 2)]) \<and>
   fst (commit (Some ''test'') no_callbacks 10 (VStr ''add'') (VNum 2) test_store) =
     fst (commit (Some ''test'') no_callbacks 10
            (VObject 3 [(''type'', VStr ''add''), (''amount'', VNum 2)]) VUndefined test_store) \<and>
   erase (snd (commit (Some ''test'') no_callbacks 10 (VStr ''add'') (VNum 2) test_store)) =
     erase (snd (commit (Some ''test'') no_callbacks 10
            (VObject 3 [(''type'', VStr ''add''), (''amount'', VNum 2)]) VUndefined test_store)) \<and>
   state (snd (commit (Some ''test'') no_callbacks 10 (VStr ''add'') (VNum 2) test_store)) =
     [(''a'', Accessor (Plain (VNum 3)) [])]"
proof -
  let ?o = "VObject 3 [(''type'', VStr ''add''), (''amount'', VNum 2)]"
  have a1: "isObject ?o" by (simp add: isObject_def)
  have a2: "get_prop ?o ''type'' = VStr ''add''" by simp
  have a3: "truthy (get_prop ?o ''type'')" by simp
  have a4: "''add'' \<noteq> []" by simp
  have a5: "typeof (VStr ''add'') = ''string''" by simp
  have h: "add_mutation (VNum 2) = add_mutation ?o"
    by (simp add: add_mutation_def isObject_def)
  have f: "\<forall>fn. no_callbacks fn (VStr ''add'') (VNum 2) = no_callbacks fn (VStr ''add'') ?o"
    by (simp add: no_callbacks_def)
  have st: "state (snd (commit (Some ''test'') no_callbacks 10 (VStr ''add'') (VNum 2) test_store)) =
     [(''a'', Accessor (Plain (VNum 3)) [])]"
    by code_simp
  note N = payload_normalization [where ?t0.0 = ?o and ?p0.0 = VUndefined and key = "''add''"
      and s = test_store and fns = no_callbacks and e = "Some ''test''" and n = 10]
  note M = payload_normalization [where ?t0.0 = "VStr ''add''" and ?p0.0 = "VNum 2"
      and key = "''add''" and s = test_store and fns = no_callbacks and e = "Some ''test''"
      and n = 10]
  have r1: "resolve ?o VUndefined = (get_prop ?o ''type'', ?o)"
    by (rule N [THEN conjunct1, THEN mp, OF conjI [OF a1 a3]])
  have r2: "resolve (VStr ''add'') (VNum 2) = (VStr ''add'', VNum 2)"
    by (rule M [THEN conjunct2, THEN conjunct2, THEN conjunct1, THEN mp, OF a5])
  note E = N [THEN conjunct2, THEN conjunct2, THEN conjunct2, THEN mp,
      OF conjI [OF a1 conjI [OF a2 a4]], THEN conjunct2, THEN conjunct2, THEN spec, THEN spec,
      THEN mp, OF conjI [OF test_store_lookup(5) conjI [OF h f]]]
  from a1 a3 r1 a5 r2 test_store_lookup(5) h E st show ?thesis
    by (intro conjI) (rule a1 a3 r1 a5 r2 test_store_lookup(5) h st E [THEN conjunct1]
        E [THEN conjunct2])+
qed

text \<open>
  Against the claim as it is written: the object \<^verbatim>\<open>{type: "", amount: 2}\<close> carries a
  \<^verbatim>\<open>type\<close> field, and a mutation is registered under the empty name; yet
  \<^verbatim>\<open>toObjectStyle\<close> takes the object itself for the type, and \<^verbatim>\<open>commit\<close> throws
  \<^verbatim>\<open>expects string as the type, but found object.\<close>
\<close>

theorem payload_normalization_counterexample:
  "isObject (VObject 4 [(''type'', VStr []), (''amount'', VNum 2)]) \<and>
   get_prop (VObject 4 [(''type'', VStr []), (''amount'', VNum 2)]) ''type'' = VStr [] \<and>
   map_of (mutations test_store) [] = Some add_mutation \<and>
   resolve (VObject 4 [(''type'', VStr []), (''amount'', VNum 2)]) VUndefined \<noteq>
     (get_prop (VObject 4 [(''type'', VStr []), (''amount'', VNum 2)]) ''type'',
      VObject 4 [(''type'', VStr []), (''amount'', VNum 2)]) \<and>
   resolve (VObject 4 [(''type'', VStr []), (''amount'', VNum 2)]) VUndefined =
     (VObject 4 [(''type'', VStr []), (''amount'', VNum 2)], VUndefined) \<and>
   commit (Some ''test'') no_callbacks 10
       (VObject 4 [(''type'', VStr []), (''amount'', VNum 2)]) VUndefined test_store =
     (Exn (TypeError ''expects string as the type, but found object.''), test_store)"
  by (simp add: test_store_lookup resolve_def isPayload_def isObject_def commit.simps
      toObjectStyle_def NOT_PRODUCTION_def)

text \<open>
  Claim C6 (the check of the type). Where \<^verbatim>\<open>NOT_PRODUCTION\<close> holds and the type that
  \<^verbatim>\<open>toObjectStyle\<close> resolves is no string, \<^verbatim>\<open>commit\<close> and \<^verbatim>\<open>dispatch\<close> throw the
  TypeError whose message is \<^verbatim>\<open>expects string as the type, but found\<close>, the
  \<^verbatim>\<open>typeof\<close> of the type and a full stop, before any lookup or handler, and the store
  is unchanged; where \<^verbatim>\<open>NOT_PRODUCTION\<close> does not hold the check is skipped and
  \<^verbatim>\<open>toObjectStyle\<close> returns type and payload.
\<close>

theorem invalid_type_rejected:
  "typeof (fst (resolve type0 payload0)) \<noteq> ''string'' \<Longrightarrow>
     (NOT_PRODUCTION e \<longrightarrow>
        commit e fns n type0 payload0 s =
          (Exn (TypeError (''expects string as the type, but found ''
                  @ typeof (fst (resolve type0 payload0)) @ ''.'')), s) \<and>
        dispatch e fns n type0 payload0 s =
          (Exn (TypeError (''expects string as the type, but found ''
                  @ typeof (fst (resolve type0 payload0)) @ ''.'')), s)) \<and>
     (\<not> NOT_PRODUCTION e \<longrightarrow> toObjectStyle e type0 payload0 = Inr (resolve type0 payload0))"
  by (simp add: commit.simps dispatch.simps toObjectStyle_reject toObjectStyle_production)

theorem invalid_type_rejected_witness:
  "commit (Some ''test'') no_callbacks 10 VUndefined (VNum 2) test_store =
     (Exn (TypeError ''expects string as the type, but found undefined.''), test_store) \<and>
   dispatch (Some ''test'') no_callbacks 10 VUndefined (VNum 2) test_store =
     (Exn (TypeError ''expects string as the type, but found undefined.''), test_store) \<and>
   toObjectStyle (Some ''production'') VUndefined (VNum 2) = Inr (VUndefined, VNum 2)"
  using invalid_type_rejected [of VUndefined "VNum 2" "Some ''test''" no_callbacks 10 test_store]
    invalid_type_rejected [of VUndefined "VNum 2" "Some ''production''" no_callbacks 10 test_store]
  by (simp add: resolve_def isPayload_def isObject_def NOT_PRODUCTION_def)




text \<open>
  Claim C8 (what dispatch returns), as the code has it. For a registered action
  whose handler returns \<open>res\<close>, \<^verbatim>\<open>dispatch\<close> returns an awaitable: \<open>res\<close> itself when it
  is one (an object with callable \<^verbatim>\<open>then\<close> and \<^verbatim>\<open>catch\<close>), and
  \<^verbatim>\<open>Promise.resolve(res)\<close> otherwise, which is a promise fulfilled with \<open>res\<close> when
  \<open>res\<close> has no callable \<^verbatim>\<open>then\<close>, and a pending promise that follows \<open>res\<close> when
  \<open>res\<close> has a callable \<^verbatim>\<open>then\<close> but no callable \<^verbatim>\<open>catch\<close>. When the handler does
  not return (it throws), \<^verbatim>\<open>dispatch\<close> does not return either: the exception leaves
  \<^verbatim>\<open>dispatch\<close> at once, and no awaitable is made.
\<close>

theorem dispatch_returns_awaitable:
  "toObjectStyle e type0 payload0 = Inr (VStr a, p) \<Longrightarrow> map_of (actions s) a = Some h \<Longrightarrow>
   exec e fns n (h p) (enter s) = (r, s') \<Longrightarrow>
     (\<forall>res. r = Val res \<longrightarrow>
        (\<exists>v. fst (dispatch e fns n type0 payload0 s) = Val v \<and> awaitable v) \<and>
        (awaitable res \<longrightarrow> fst (dispatch e fns n type0 payload0 s) = Val res) \<and>
        (\<not> awaitable res \<and> \<not> has_then res \<longrightarrow>
           fst (dispatch e fns n type0 payload0 s) = Val (VPromise (Fulfilled res))) \<and>
        (\<not> awaitable res \<and> has_then res \<longrightarrow>
           fst (dispatch e fns n type0 payload0 s) = Val (VPromise (Following res)))) \<and>
     ((\<forall>res. r \<noteq> Val res) \<longrightarrow> fst (dispatch e fns n type0 payload0 s) = r)"
proof -
  assume t: "toObjectStyle e type0 payload0 = Inr (VStr a, p)"
    and a: "map_of (actions s) a = Some h"
    and x: "exec e fns n (h p) (enter s) = (r, s')"
  note d = dispatch_registered [OF t a x]
  show ?thesis
  proof (cases r)
    case (Val res)
    show ?thesis
    proof (cases "awaitable res")
      case True
      with d Val show ?thesis by (simp add: isPromise_awaitable)
    next
      case False
      show ?thesis
      proof (cases "has_then res")
        case True
        with d Val False Promise_resolve_following [OF False True] show ?thesis
          by (simp add: isPromise_awaitable)
      next
        case nt: False
        with d Val False Promise_resolve_fulfilled [OF False nt] show ?thesis
          by (simp add: isPromise_awaitable)
      qed
    qed
  qed (use d in simp_all)
qed

theorem dispatch_returns_awaitable_witness:
  "fst (dispatch (Some ''test'') demo_callbacks 10 (VStr ''plain'') VUndefined demo_store) =
     Val (VPromise (Fulfilled (VNum 5))) \<and>
   fst (dispatch (Some ''test'') demo_callbacks 10 (VStr ''thenable'') VUndefined demo_store) =
     Val thenable \<and>
   awaitable thenable \<and>
   fst (dispatch (Some ''test'') demo_callbacks 10 (VStr ''onlyThen'') VUndefined demo_store) =
     Val (VPromise (Following only_then)) \<and>
   fst (dispatch (Some ''test'') demo_callbacks 10 (VStr ''throwing'') VUndefined demo_store) =
     Exn (UserThrow (VStr ''failed''))"
proof -
  have t: "toObjectStyle (Some ''test'') (VStr a) VUndefined = Inr (VStr a, VUndefined)" for a
    by (simp add: toObjectStyle_def resolve_def)
  have 1: "exec (Some ''test'') demo_callbacks 10 (plain_action VUndefined) (enter demo_store) =
      (Val (VNum 5), enter demo_store)"
    by (simp add: plain_action_def)
  have 2: "exec (Some ''test'') demo_callbacks 10 (thenable_action VUndefined) (enter demo_store) =
      (Val thenable, enter demo_store)"
    by (simp add: thenable_action_def)
  have 3: "exec (Some ''test'') demo_callbacks 10 (only_then_action VUndefined) (enter demo_store) =
      (Val only_then, enter demo_store)"
    by (simp add: only_then_action_def)
  have 4: "exec (Some ''test'') demo_callbacks 10 (throwing_action VUndefined) (enter demo_store) =
      (Exn (UserThrow (VStr ''failed'')), enter demo_store)"
    by (simp add: throwing_action_def)
  have 5: "awaitable thenable" "\<not> awaitable (VNum 5)" "\<not> has_then (VNum 5)"
    "\<not> awaitable only_then" "has_then only_then"
    by (simp_all add: thenable_def only_then_def)
  from dispatch_returns_awaitable [OF t demo_store_lookup(1) 1]
    dispatch_returns_awaitable [OF t demo_store_lookup(2) 2]
    dispatch_returns_awaitable [OF t demo_store_lookup(3) 3]
    dispatch_returns_awaitable [OF t demo_store_lookup(4) 4] 5
  show ?thesis by simp
qed

text \<open>
  Against the claim as it is written: the action \<^verbatim>\<open>throwing\<close> is registered and
  \<^verbatim>\<open>dispatch("throwing")\<close> returns no awaitable, it throws what the handler threw.
  The handler of \<^verbatim>\<open>onlyThen\<close> returns an object with a function \<^verbatim>\<open>then\<close> and no
  \<^verbatim>\<open>catch\<close>, which is not an awaitable in the sense of the claim; what
  \<^verbatim>\<open>dispatch("onlyThen")\<close> returns is a pending promise that follows the object, not
  a promise resolved to it.
\<close>

theorem dispatch_returns_awaitable_counterexample:
  "map_of (actions demo_store) ''throwing'' = Some throwing_action \<and>
   fst (dispatch (Some ''test'') demo_callbacks 10 (VStr ''throwing'') VUndefined demo_store) =
     Exn (UserThrow (VStr ''failed'')) \<and>
   map_of (actions demo_store) ''onlyThen'' = Some only_then_action \<and>
   fst (exec (Some ''test'') demo_callbacks 10 (only_then_action VUndefined) (enter demo_store)) =
     Val only_then \<and>
   \<not> awaitable only_then \<and>
   fst (dispatch (Some ''test'') demo_callbacks 10 (VStr ''onlyThen'') VUndefined demo_store) =
     Val (VPromise (Following only_then)) \<and>
   fst (dispatch (Some ''test'') demo_callbacks 10 (VStr ''onlyThen'') VUndefined demo_store) \<noteq>
     Val (VPromise (Fulfilled only_then))"
  by (simp add: demo_store_lookup dispatch.simps registry_get_def leave_def toObjectStyle_def
      resolve_def throwing_action_def only_then_action_def only_then_def isPromise_def
      isObject_def isFunction_def Promise_resolve_def proto_get_def Object_prototype_keys_def)

text \<open>
  Claim C9 (a write to a reactive cell). A write that the guard lets pass, to a cell
  that holds \<open>cur\<close> and has the dependents \<open>deps\<close>: the set of dependents holds no
  reaction twice, however often it was registered; when \<^verbatim>\<open>newVal !== currentValue\<close>
  the setter calls every reaction of \<open>deps\<close> once, which leaves its getter dirty, and
  otherwise it calls none; then the cell holds the new value. NaN written over NaN
  counts as a change.
\<close>

theorem cell_write_invalidates:
  "wf_state (state s) \<Longrightarrow> resolves (state s) path (Some (Accessor cur deps)) \<Longrightarrow>
   \<not> blocked e s \<Longrightarrow>
     fst (write_state e path v s) = Val v \<and>
     distinct deps \<and>
     calls (snd (write_state e path v s)) =
       calls s @ (if changed v cur then map (\<lambda>r. Call (Reaction r) []) deps else []) \<and>
     (\<forall>g ge. map_of (getters s) g = Some ge \<longrightarrow>
        map_of (getters (snd (write_state e path v s))) g =
          Some (if changed v cur \<and> g \<in> set deps then ge\<lparr>isDirty := True\<rparr> else ge)) \<and>
     resolves (state (snd (write_state e path v s))) path (Some (Accessor (Plain v) deps)) \<and>
     changed VNaN (Plain VNaN)"
proof -
  assume wf: "wf_state (state s)"
    and c: "resolves (state s) path (Some (Accessor cur deps))"
    and b: "\<not> blocked e s"
  note w = write_state_cell [OF c b, of v]
    and r = state_set_cell [OF c, of "runningReaction s" v]
  have 1: "fst (write_state e path v s) = Val v" by (simp add: w)
  have 2: "distinct deps" using resolves_distinct [OF wf c] .
  have 3: "calls (snd (write_state e path v s)) =
       calls s @ (if changed v cur then map (\<lambda>r. Call (Reaction r) []) deps else [])"
    by (simp add: w)
  have 4: "map_of (getters (snd (write_state e path v s))) g =
          Some (if changed v cur \<and> g \<in> set deps then ge\<lparr>isDirty := True\<rparr> else ge)"
    if "map_of (getters s) g = Some ge" for g ge
    using that fire_all_getter [of "s\<lparr>state := fst (snd (state_set False (runningReaction s) (state s) path v))\<rparr>"
        g ge "if changed v cur then deps else []"]
    by (simp add: w)
  have 5: "resolves (state (snd (write_state e path v s))) path (Some (Accessor (Plain v) deps))"
    using r by (simp add: w)
  have 6: "changed VNaN (Plain VNaN)" by (simp add: strict_neq_def)
  from 1 2 3 4 5 6 show ?thesis by blast
qed

theorem cell_write_invalidates_witness:
  "wf_state (state (demo_store\<lparr>isCommitting := True\<rparr>)) \<and>
   resolves (state (demo_store\<lparr>isCommitting := True\<rparr>)) [''a'']
     (Some (Accessor (Plain (VNum 0)) [''g''])) \<and>
   \<not> blocked (Some ''test'') (demo_store\<lparr>isCommitting := True\<rparr>) \<and>
   fst (write_state (Some ''test'') [''a''] (VNum 1) (demo_store\<lparr>isCommitting := True\<rparr>)) =
     Val (VNum 1) \<and>
   calls (snd (write_state (Some ''test'') [''a''] (VNum 1) (demo_store\<lparr>isCommitting := True\<rparr>))) =
     calls demo_store @ [Call (Reaction ''g'') []] \<and>
   calls (snd (write_state (Some ''test'') [''a''] (VNum 0) (demo_store\<lparr>isCommitting := True\<rparr>))) =
     calls demo_store \<and>
   resolves (state (snd (write_state (Some ''test'') [''a''] (VNum 1)
       (demo_store\<lparr>isCommitting := True\<rparr>)))) [''a''] (Some (Accessor (Plain (VNum 1)) [''g'']))"
proof -
  have w: "wf_state (state (demo_store\<lparr>isCommitting := True\<rparr>))"
    by (simp add: demo_store_def wf_new_Store)
  have r: "resolves (state (demo_store\<lparr>isCommitting := True\<rparr>)) [''a'']
     (Some (Accessor (Plain (VNum 0)) [''g'']))"
    by (simp add: demo_store_facts)
  have b: "\<not> blocked (Some ''test'') (demo_store\<lparr>isCommitting := True\<rparr>)"
    by (simp add: blocked_def)
  from cell_write_invalidates [OF w r b, of "VNum 1"] cell_write_invalidates [OF w r b, of "VNum 0"]
    w r b
  show ?thesis by (simp add: strict_neq_def)
qed

text \<open>
  Claim C10 (a key that the initial state did not have). An assignment to a key that
  the wrapper does not have (other than \<^verbatim>\<open>__proto__\<close>) succeeds whatever \<^verbatim>\<open>strict\<close>,
  the guard and the profile are, calls no reaction and makes a data property. A later
  read of a data property returns its value and registers no reaction for it (a read
  of a key of the root leaves the store as it is); a later write succeeds in the same
  way and invalidates no getter.
\<close>

theorem new_key_unguarded:
  "(resolves (state s) path None \<and> last path \<noteq> ''__proto__'' \<longrightarrow>
      fst (write_state e path v s) = Val v \<and>
      resolves (state (snd (write_state e path v s))) path (Some (Data v)) \<and>
      getters (snd (write_state e path v s)) = getters s \<and>
      calls (snd (write_state e path v s)) = calls s) \<and>
   (resolves (state s) path (Some (Data x)) \<longrightarrow>
      fst (read_state path s) = Val x \<and>
      resolves (state (snd (read_state path s))) path (Some (Data x)) \<and>
      (\<forall>k. path = [k] \<longrightarrow> snd (read_state path s) = s) \<and>
      fst (write_state e path v s) = Val v \<and>
      resolves (state (snd (write_state e path v s))) path (Some (Data v)) \<and>
      getters (snd (write_state e path v s)) = getters s \<and>
      calls (snd (write_state e path v s)) = calls s)"
proof (intro conjI impI)
  assume a: "resolves (state s) path None \<and> last path \<noteq> ''__proto__''"
  then have w: "write_state e path v s =
      (Val v, s\<lparr>state := fst (snd (state_set (blocked e s) (runningReaction s) (state s) path v))\<rparr>)"
    by (rule write_state_plain [OF disjI1])
  from a have r: "resolves (fst (snd (state_set (blocked e s) (runningReaction s) (state s) path v)))
      path (Some (Data v))"
    using state_set_absent by blast
  show "fst (write_state e path v s) = Val v" by (simp add: w)
  show "resolves (state (snd (write_state e path v s))) path (Some (Data v))"
    using r by (simp add: w)
  show "getters (snd (write_state e path v s)) = getters s" by (simp add: w)
  show "calls (snd (write_state e path v s)) = calls s" by (simp add: w)
next
  assume d: "resolves (state s) path (Some (Data x))"
  then have w: "write_state e path v s =
      (Val v, s\<lparr>state := fst (snd (state_set (blocked e s) (runningReaction s) (state s) path v))\<rparr>)"
    by (rule write_state_plain [OF disjI2])
  from d have r: "resolves (fst (snd (state_set (blocked e s) (runningReaction s) (state s) path v)))
      path (Some (Data v))"
    using state_set_data by blast
  show "fst (read_state path s) = Val x" using read_state_data [OF d] by simp
  show "resolves (state (snd (read_state path s))) path (Some (Data x))"
    using read_state_data [OF d] by simp
  show "\<forall>k. path = [k] \<longrightarrow> snd (read_state path s) = s"
    using d by (auto simp: read_state_data_root)
  show "fst (write_state e path v s) = Val v" by (simp add: w)
  show "resolves (state (snd (write_state e path v s))) path (Some (Data v))"
    using r by (simp add: w)
  show "getters (snd (write_state e path v s)) = getters s" by (simp add: w)
  show "calls (snd (write_state e path v s)) = calls s" by (simp add: w)
qed

theorem new_key_unguarded_witness:
  "resolves (state test_store) [''c''] None \<and> strict test_store \<and> \<not> isCommitting test_store \<and>
   fst (write_state (Some ''test'') [''c''] (VNum 9) test_store) = Val (VNum 9) \<and>
   resolves (state (snd (write_state (Some ''test'') [''c''] (VNum 9) test_store))) [''c'']
     (Some (Data (VNum 9))) \<and>
   fst (read_state [''c''] (snd (write_state (Some ''test'') [''c''] (VNum 9) test_store))) =
     Val (VNum 9) \<and>
   fst (write_state (Some ''test'') [''c''] (VNum 10)
          (snd (write_state (Some ''test'') [''c''] (VNum 9) test_store))) = Val (VNum 10)"
proof -
  have a: "resolves (state test_store) [''c''] None \<and> last [''c''] \<noteq> ''__proto__''"
    by (simp add: test_store_facts)
  from new_key_unguarded [where s = test_store and path = "[''c'']" and e = "Some ''test''"
      and v = "VNum 9"] a
  have 1: "fst (write_state (Some ''test'') [''c''] (VNum 9) test_store) = Val (VNum 9)"
    and 2: "resolves (state (snd (write_state (Some ''test'') [''c''] (VNum 9) test_store))) [''c'']
     (Some (Data (VNum 9)))"
    by blast+
  from new_key_unguarded [where s = "snd (write_state (Some ''test'') [''c''] (VNum 9) test_store)"
      and path = "[''c'']" and e = "Some ''test''" and v = "VNum 10" and x = "VNum 9"] 2
  have 3: "fst (read_state [''c''] (snd (write_state (Some ''test'') [''c''] (VNum 9) test_store))) =
     Val (VNum 9)"
    and 4: "fst (write_state (Some ''test'') [''c''] (VNum 10)
          (snd (write_state (Some ''test'') [''c''] (VNum 9) test_store))) = Val (VNum 10)"
    by blast+
  from a 1 2 3 4 show ?thesis by (simp add: test_store_facts)
qed

end
